theory Spec2Isabelle
  imports Complex_Main "HOL-Library.Word" "HOL-Library.AList"
begin

section \<open>Package stats: token savings\<close>

text \<open>
  Go's \<open>int\<close> is a 64-bit two's complement integer on the platforms the program is built
  for; arithmetic wraps around. Token counts are read from a file, so their sums are
  modelled with the wrap-around.
\<close>

type_synonym go_int = "64 word"

definition GrepExpansionFactor :: go_int where
  "GrepExpansionFactor = 3"

definition DefaultChunkTokens :: go_int where
  "DefaultChunkTokens = 512"

definition MinGrepTokens :: go_int where
  "MinGrepTokens = 50"

definition CostPerMTokenUSD :: int where
  "CostPerMTokenUSD = 5"

definition cloudProviders :: "string \<rightharpoonup> bool" where
  "cloudProviders = [''openai'' \<mapsto> True, ''openrouter'' \<mapsto> True, ''synthetic'' \<mapsto> True]"

text \<open>Reading a missing key of a Go map yields the zero value, here \<open>false\<close>.\<close>

definition IsCloudProvider :: "string \<Rightarrow> bool" where
  "IsCloudProvider provider = (case cloudProviders provider of None \<Rightarrow> False | Some b \<Rightarrow> b)"

definition GrepEquivalentTokens :: "go_int \<Rightarrow> go_int" where
  "GrepEquivalentTokens resultCount =
     (if resultCount = 0 then MinGrepTokens
      else resultCount * DefaultChunkTokens * GrepExpansionFactor)"

record Entry =
  Timestamp :: string
  CommandType :: string
  OutputMode :: string
  ResultCount :: go_int
  OutputTokens :: go_int
  GrepTokens :: go_int

record 'f Summary =
  TotalQueries :: go_int
  Summary_OutputTokens :: go_int
  Summary_GrepTokens :: go_int
  TokensSaved :: go_int
  SavingsPct :: 'f
  CostSavedUSD :: "'f option"
  ByCommandType :: "string \<rightharpoonup> go_int"
  ByOutputMode :: "string \<rightharpoonup> go_int"

text \<open>
  The \<open>float64\<close> arithmetic of \<open>Summarize\<close> is kept abstract: \<open>'f\<close> is the type of
  floating-point values, \<open>float64\<close> the conversion of an integer, \<open>fdiv\<close> and \<open>fmul\<close>
  the division and the multiplication. What is proved holds for every interpretation of
  them, IEEE 754 included.
\<close>

record 'f float64_ops =
  float64 :: "int \<Rightarrow> 'f"
  fdiv :: "'f \<Rightarrow> 'f \<Rightarrow> 'f"
  fmul :: "'f \<Rightarrow> 'f \<Rightarrow> 'f"

text \<open>\<open>m[k]++\<close> on a Go map: a missing key counts from 0.\<close>

definition incr :: "(string \<rightharpoonup> go_int) \<Rightarrow> string \<Rightarrow> (string \<rightharpoonup> go_int)" where
  "incr m k = m(k \<mapsto> (case m k of None \<Rightarrow> 0 | Some n \<Rightarrow> n) + 1)"

fun summarize_loop :: "Entry list \<Rightarrow> 'f Summary \<Rightarrow> 'f Summary" where
  "summarize_loop [] s = s"
| "summarize_loop (e # es) s =
     summarize_loop es
       (s\<lparr>TotalQueries := TotalQueries s + 1,
          Summary_OutputTokens := Summary_OutputTokens s + OutputTokens e,
          Summary_GrepTokens := Summary_GrepTokens s + GrepTokens e,
          ByCommandType := incr (ByCommandType s) (CommandType e),
          ByOutputMode := incr (ByOutputMode s) (OutputMode e)\<rparr>)"

definition Summarize :: "'f float64_ops \<Rightarrow> Entry list \<Rightarrow> string \<Rightarrow> 'f Summary" where
  "Summarize F entries provider =
     (let s0 = \<lparr>TotalQueries = 0, Summary_OutputTokens = 0, Summary_GrepTokens = 0,
                TokensSaved = 0, SavingsPct = float64 F 0, CostSavedUSD = None,
                ByCommandType = [''search'' \<mapsto> 0, ''trace-callers'' \<mapsto> 0,
                                 ''trace-callees'' \<mapsto> 0, ''trace-graph'' \<mapsto> 0],
                ByOutputMode = [''full'' \<mapsto> 0, ''compact'' \<mapsto> 0, ''toon'' \<mapsto> 0]\<rparr>;
          s1 = summarize_loop entries s0;
          s2 = s1\<lparr>TokensSaved := Summary_GrepTokens s1 - Summary_OutputTokens s1\<rparr>;
          s3 = (if 0 <s Summary_GrepTokens s2
                then s2\<lparr>SavingsPct :=
                        fmul F (fdiv F (float64 F (sint (TokensSaved s2)))
                                       (float64 F (sint (Summary_GrepTokens s2))))
                               (float64 F 100)\<rparr>
                else s2)
      in if IsCloudProvider provider
         then s3\<lparr>CostSavedUSD :=
                  Some (fmul F (fdiv F (float64 F (sint (TokensSaved s3))) (float64 F 1000000))
                               (float64 F CostPerMTokenUSD))\<rparr>
         else s3)"

text \<open>Exact arithmetic as one interpretation of the floating-point operations.\<close>

definition real_ops :: "real float64_ops" where
  "real_ops = \<lparr>float64 = real_of_int, fdiv = (/), fmul = (*)\<rparr>"

subsection \<open>Reading the stats file\<close>

text \<open>
  \<open>ReadAll\<close> opens the file and reads it through \<open>bufio.NewScanner(f)\<close>, that is with
  the split function \<open>ScanLines\<close> and the default buffer. \<open>os.Open\<close> and the scanner
  belong to Go's library. The model takes the outcome of opening the file: it is missing,
  it cannot be opened, or it is opened, with the bytes that reading it delivers and
  whether reading ends with an I/O error instead of the end of the file. The scanner is
  modelled as its documentation describes it: a line ends at a newline, which is not part
  of it, and a carriage return before the newline is dropped; what follows the last
  newline is a line if it is not empty; scanning stops, with the error \<open>ErrTooLong\<close>, at
  a line that does not fit the buffer, whose size is \<open>MaxScanTokenSize = 64 * 1024\<close>
  bytes (no newline among the first 65536 bytes of the line). \<open>strings.TrimSpace\<close> and
  \<open>json.Unmarshal\<close> into an \<open>Entry\<close> are parameters (\<open>None\<close>: the line is rejected).
  Warnings on stderr are the line numbers of the rejected lines.
\<close>

datatype stats_error = OpenError | ReadError

datatype stats_file = NotExist | OpenFails | Opened string bool

definition MaxScanTokenSize :: nat where
  "MaxScanTokenSize = 64 * 1024"

definition dropCR :: "string \<Rightarrow> string" where
  "dropCR data = (if data \<noteq> [] \<and> last data = CHR 0x0D then butlast data else data)"

text \<open>
  \<open>scan_lines line data\<close>: the lines the scanner yields and whether it stopped at a line
  too long, when \<open>line\<close> is the part already read of the current line and \<open>data\<close> the
  bytes still to read.
\<close>

fun scan_lines :: "string \<Rightarrow> string \<Rightarrow> string list \<times> bool" where
  "scan_lines line [] = (if line = [] then ([], False) else ([dropCR line], False))"
| "scan_lines line (c # rest) =
     (if c = CHR 0x0A
      then (let (tokens, tooLong) = scan_lines [] rest in (dropCR line # tokens, tooLong))
      else if MaxScanTokenSize \<le> length line + 1 then ([], True)
      else scan_lines (line @ [c]) rest)"

fun read_loop ::
  "(string \<Rightarrow> string) \<Rightarrow> (string \<Rightarrow> Entry option) \<Rightarrow> string list \<Rightarrow> nat \<Rightarrow>
   Entry list \<Rightarrow> nat list \<Rightarrow> Entry list \<times> nat list" where
  "read_loop TrimSpace Unmarshal [] lineNum entries warnings = (entries, warnings)"
| "read_loop TrimSpace Unmarshal (text # rest) lineNum entries warnings =
     (let lineNum' = lineNum + 1; line = TrimSpace text in
      if line = [] then read_loop TrimSpace Unmarshal rest lineNum' entries warnings
      else case Unmarshal line of
             None \<Rightarrow> read_loop TrimSpace Unmarshal rest lineNum' entries (warnings @ [lineNum'])
           | Some e \<Rightarrow> read_loop TrimSpace Unmarshal rest lineNum' (entries @ [e]) warnings)"

definition ReadAll ::
  "(string \<Rightarrow> string) \<Rightarrow> (string \<Rightarrow> Entry option) \<Rightarrow> stats_file \<Rightarrow>
   (Entry list \<times> stats_error option) \<times> nat list" where
  "ReadAll TrimSpace Unmarshal f =
     (case f of
        NotExist \<Rightarrow> (([], None), [])
      | OpenFails \<Rightarrow> (([], Some OpenError), [])
      | Opened content readErr \<Rightarrow>
          (let (tokens, tooLong) = scan_lines [] content;
               (entries, warnings) = read_loop TrimSpace Unmarshal tokens 0 [] []
           in ((entries, if tooLong \<or> readErr then Some ReadError else None), warnings)))"

text \<open>What one line of the file contributes: nothing when blank or rejected, else its entry.\<close>

definition line_entry ::
  "(string \<Rightarrow> string) \<Rightarrow> (string \<Rightarrow> Entry option) \<Rightarrow> string \<Rightarrow> Entry option" where
  "line_entry TrimSpace Unmarshal text =
     (if TrimSpace text = [] then None else Unmarshal (TrimSpace text))"

text \<open>A toy decoder for examples: a line \<open>ok\<close> is an entry, anything else is rejected.\<close>

definition demo_entry :: Entry where
  "demo_entry = \<lparr>Timestamp = ''2026-02-22T10:00:00Z'', CommandType = ''search'',
                  OutputMode = ''full'', ResultCount = 4, OutputTokens = 200, GrepTokens = 2048\<rparr>"

definition demo_unmarshal :: "string \<Rightarrow> Entry option" where
  "demo_unmarshal line = (if line = ''ok'' then Some demo_entry else None)"

definition demo_trim :: "string \<Rightarrow> string" where
  "demo_trim s = filter (\<lambda>c. c \<noteq> CHR '' '') s"

section \<open>Package store: the data model and the VectorStore interface\<close>

text \<open>
  The vector of a chunk (\<open>[]float32\<close>) is a value of the abstract type \<open>'v\<close>; times are
  seconds as integers.
\<close>

record 'v Chunk =
  Chunk_ID :: string
  Chunk_FilePath :: string
  Chunk_StartLine :: int
  Chunk_EndLine :: int
  Chunk_Content :: string
  Chunk_Vector :: 'v
  Chunk_Hash :: string
  Chunk_UpdatedAt :: int

record Document =
  Doc_Path :: string
  Doc_Hash :: string
  Doc_ModTime :: int
  Doc_ChunkIDs :: "string list"

record ('v, 's) SearchResult =
  Result_Chunk :: "'v Chunk"
  Result_Score :: 's

text \<open>
  The calls the program makes on its collaborators, in the order it makes them, each with
  its outcome (\<open>True\<close>: it returned no error). \<open>OpEmbedBatch\<close> is the call on the
  embedder, the others are the operations of the \<open>VectorStore\<close> interface.
\<close>

datatype op =
    OpSaveChunks "string list"
  | OpDeleteByFile string
  | OpGetDocument string
  | OpSaveDocument Document
  | OpDeleteDocument string
  | OpListDocuments
  | OpLoad
  | OpPersist
  | OpEmbedBatch "string list"

datatype error = ScanError | StoreError | EmbedderError | Wrapped string error

datatype log_line = Skipped string | FailedToIndex string error | FailedToRemove string error

text \<open>
  The state the indexer works on: the store's tables in memory (association lists, a chunk
  under its id and a document under its path), their durable copy, the calls made so far
  and the lines logged so far.
\<close>

record 'v world =
  chunks :: "(string \<times> 'v Chunk) list"
  documents :: "(string \<times> Document) list"
  disk :: "(string \<times> 'v Chunk) list \<times> (string \<times> Document) list"
  calls :: "(op \<times> bool) list"
  logged :: "log_line list"

text \<open>
  What a run depends on beside the store: the result of \<open>Scanner.Scan\<close>, the chunker
  \<open>ChunkWithContext\<close>, the embedding of one text, which calls fail (\<open>fails n c\<close>: the
  call \<open>c\<close>, made after \<open>n\<close> earlier calls, returns an error), the clock (read after
  \<open>n\<close> calls), and the order in which Go's runtime enumerates a map (\<open>pick keys\<close>
  chooses, among the keys not yet visited, the one that comes next). The scanner, the
  chunker and the \<open>FileInfo\<close> and \<open>ChunkInfo\<close> types are not among the sources; the
  fields of the two records are those \<open>IndexFile\<close> reads.
\<close>

record FileInfo =
  File_Path :: string
  File_Hash :: string
  File_Content :: string
  File_ModTime :: int

record ChunkInfo =
  Info_ID :: string
  Info_FilePath :: string
  Info_StartLine :: int
  Info_EndLine :: int
  Info_Content :: string
  Info_Hash :: string

record 'v env =
  Scan :: "error + FileInfo list \<times> string list"
  ChunkWithContext :: "string \<Rightarrow> string \<Rightarrow> ChunkInfo list"
  embed :: "string \<Rightarrow> 'v"
  fails :: "nat \<Rightarrow> op \<Rightarrow> bool"
  now :: "nat \<Rightarrow> int"
  pick :: "string list \<Rightarrow> nat"

text \<open>Making a call: its outcome is decided by \<open>fails\<close> and recorded.\<close>

definition call :: "'v env \<Rightarrow> op \<Rightarrow> 'v world \<Rightarrow> bool \<times> 'v world" where
  "call E c w =
     (let ok = \<not> fails E (length (calls w)) c in (ok, w\<lparr>calls := calls w @ [(c, ok)]\<rparr>))"

text \<open>
  Modelled from the spec: the implementations of the VectorStore interface are missing
  from the sources. \<open>save_chunks\<close> stores every chunk under its id (no two chunks share
  an id) and is all-or-nothing; \<open>delete_by_file\<close> removes every chunk whose file path is
  the given one; \<open>get_document\<close> returns the document or absent; \<open>save_document\<close> and
  \<open>delete_document\<close> upsert and remove; \<open>list_documents\<close> returns all known paths;
  \<open>persist\<close> and \<open>load\<close> flush to and hydrate from durable storage. A call that fails
  changes nothing.
\<close>

definition SaveChunks :: "'v env \<Rightarrow> 'v Chunk list \<Rightarrow> 'v world \<Rightarrow> (error + unit) \<times> 'v world" where
  "SaveChunks E cs w =
     (let (ok, w') = call E (OpSaveChunks (map Chunk_ID cs)) w in
      if ok then (Inr (), w'\<lparr>chunks := fold (\<lambda>c al. AList.update (Chunk_ID c) c al) cs (chunks w')\<rparr>)
      else (Inl StoreError, w'))"

definition DeleteByFile :: "'v env \<Rightarrow> string \<Rightarrow> 'v world \<Rightarrow> (error + unit) \<times> 'v world" where
  "DeleteByFile E filePath w =
     (let (ok, w') = call E (OpDeleteByFile filePath) w in
      if ok then (Inr (), w'\<lparr>chunks := filter (\<lambda>kc. Chunk_FilePath (snd kc) \<noteq> filePath) (chunks w')\<rparr>)
      else (Inl StoreError, w'))"

definition GetDocument ::
  "'v env \<Rightarrow> string \<Rightarrow> 'v world \<Rightarrow> (error + Document option) \<times> 'v world" where
  "GetDocument E filePath w =
     (let (ok, w') = call E (OpGetDocument filePath) w in
      if ok then (Inr (map_of (documents w') filePath), w') else (Inl StoreError, w'))"

definition SaveDocument :: "'v env \<Rightarrow> Document \<Rightarrow> 'v world \<Rightarrow> (error + unit) \<times> 'v world" where
  "SaveDocument E doc w =
     (let (ok, w') = call E (OpSaveDocument doc) w in
      if ok then (Inr (), w'\<lparr>documents := AList.update (Doc_Path doc) doc (documents w')\<rparr>)
      else (Inl StoreError, w'))"

definition DeleteDocument :: "'v env \<Rightarrow> string \<Rightarrow> 'v world \<Rightarrow> (error + unit) \<times> 'v world" where
  "DeleteDocument E filePath w =
     (let (ok, w') = call E (OpDeleteDocument filePath) w in
      if ok then (Inr (), w'\<lparr>documents := AList.delete filePath (documents w')\<rparr>)
      else (Inl StoreError, w'))"

definition ListDocuments :: "'v env \<Rightarrow> 'v world \<Rightarrow> (error + string list) \<times> 'v world" where
  "ListDocuments E w =
     (let (ok, w') = call E OpListDocuments w in
      if ok then (Inr (map fst (documents w')), w') else (Inl StoreError, w'))"

definition Persist :: "'v env \<Rightarrow> 'v world \<Rightarrow> (error + unit) \<times> 'v world" where
  "Persist E w =
     (let (ok, w') = call E OpPersist w in
      if ok then (Inr (), w'\<lparr>disk := (chunks w', documents w')\<rparr>) else (Inl StoreError, w'))"

definition Load :: "'v env \<Rightarrow> 'v world \<Rightarrow> (error + unit) \<times> 'v world" where
  "Load E w =
     (let (ok, w') = call E OpLoad w in
      if ok then (Inr (), w'\<lparr>chunks := fst (disk w'), documents := snd (disk w')\<rparr>)
      else (Inl StoreError, w'))"

text \<open>
  Modelled from the spec: the embedder is missing from the sources. \<open>embed_batch\<close>
  returns one vector per text and preserves the order of its input.
\<close>

definition EmbedBatch :: "'v env \<Rightarrow> string list \<Rightarrow> 'v world \<Rightarrow> (error + 'v list) \<times> 'v world" where
  "EmbedBatch E contents w =
     (let (ok, w') = call E (OpEmbedBatch contents) w in
      if ok then (Inr (map (embed E) contents), w') else (Inl EmbedderError, w'))"

section \<open>Package indexer\<close>

record IndexStats =
  FilesIndexed :: nat
  FilesSkipped :: nat
  ChunksCreated :: nat
  FilesRemoved :: nat
  Duration :: int

definition store_chunk :: "int \<Rightarrow> ChunkInfo \<times> 'v \<Rightarrow> 'v Chunk" where
  "store_chunk stamp iv =
     \<lparr>Chunk_ID = Info_ID (fst iv), Chunk_FilePath = Info_FilePath (fst iv),
      Chunk_StartLine = Info_StartLine (fst iv), Chunk_EndLine = Info_EndLine (fst iv),
      Chunk_Content = Info_Content (fst iv), Chunk_Vector = snd iv,
      Chunk_Hash = Info_Hash (fst iv), Chunk_UpdatedAt = stamp\<rparr>"

text \<open>
  \<open>IndexFile\<close>. The loop that fills \<open>chunks[i]\<close> from \<open>chunkInfos[i]\<close> and
  \<open>vectors[i]\<close> is the \<open>map\<close> over the two lists zipped: the embedder returns one
  vector per chunk.
\<close>

definition IndexFile :: "'v env \<Rightarrow> FileInfo \<Rightarrow> 'v world \<Rightarrow> (error + nat) \<times> 'v world" where
  "IndexFile E file w =
     (case DeleteByFile E (File_Path file) w of
        (Inl err, w1) \<Rightarrow> (Inl (Wrapped ''failed to delete existing chunks'' err), w1)
      | (Inr _, w1) \<Rightarrow>
          (let chunkInfos = ChunkWithContext E (File_Path file) (File_Content file) in
           if length chunkInfos = 0 then (Inr 0, w1)
           else
             (case EmbedBatch E (map Info_Content chunkInfos) w1 of
                (Inl err, w2) \<Rightarrow> (Inl (Wrapped ''failed to embed chunks'' err), w2)
              | (Inr vectors, w2) \<Rightarrow>
                  (let stamp = now E (length (calls w2));
                       cs = map (store_chunk stamp) (zip chunkInfos vectors);
                       chunkIDs = map Info_ID chunkInfos
                   in case SaveChunks E cs w2 of
                        (Inl err, w3) \<Rightarrow> (Inl (Wrapped ''failed to save chunks'' err), w3)
                      | (Inr _, w3) \<Rightarrow>
                          (let doc = \<lparr>Doc_Path = File_Path file, Doc_Hash = File_Hash file,
                                      Doc_ModTime = File_ModTime file, Doc_ChunkIDs = chunkIDs\<rparr>
                           in case SaveDocument E doc w3 of
                                (Inl err, w4) \<Rightarrow> (Inl (Wrapped ''failed to save document'' err), w4)
                              | (Inr _, w4) \<Rightarrow> (Inr (length cs), w4))))))"

definition RemoveFile :: "'v env \<Rightarrow> string \<Rightarrow> 'v world \<Rightarrow> (error + unit) \<times> 'v world" where
  "RemoveFile E path w =
     (case DeleteByFile E path w of
        (Inl err, w1) \<Rightarrow> (Inl (Wrapped ''failed to delete chunks'' err), w1)
      | (Inr _, w1) \<Rightarrow>
          (case DeleteDocument E path w1 of
             (Inl err, w2) \<Rightarrow> (Inl (Wrapped ''failed to delete document'' err), w2)
           | (Inr _, w2) \<Rightarrow> (Inr (), w2)))"

definition NeedsReindex :: "'v env \<Rightarrow> string \<Rightarrow> string \<Rightarrow> 'v world \<Rightarrow> (error + bool) \<times> 'v world" where
  "NeedsReindex E path hash w =
     (case GetDocument E path w of
        (Inl err, w1) \<Rightarrow> (Inl err, w1)
      | (Inr None, w1) \<Rightarrow> (Inr True, w1)
      | (Inr (Some doc), w1) \<Rightarrow> (Inr (Doc_Hash doc \<noteq> hash), w1))"

text \<open>
  \<open>existingMap\<close> is a Go \<open>map[string]bool\<close> whose values are all \<open>true\<close>: it is modelled
  by the list of its keys, without repetition. \<open>delete\<close> is \<open>removeAll\<close>.
\<close>

definition unchanged :: "Document option \<Rightarrow> FileInfo \<Rightarrow> bool" where
  "unchanged doc file = (case doc of None \<Rightarrow> False | Some d \<Rightarrow> Doc_Hash d = File_Hash file)"

fun index_loop ::
  "'v env \<Rightarrow> FileInfo list \<Rightarrow> IndexStats \<Rightarrow> string list \<Rightarrow> 'v world \<Rightarrow>
   (error + IndexStats \<times> string list) \<times> 'v world" where
  "index_loop E [] stats existingMap w = (Inr (stats, existingMap), w)"
| "index_loop E (file # files) stats existingMap w =
     (case GetDocument E (File_Path file) w of
        (Inl err, w1) \<Rightarrow> (Inl (Wrapped (''failed to get document '' @ File_Path file) err), w1)
      | (Inr doc, w1) \<Rightarrow>
          if unchanged doc file
          then index_loop E files stats (removeAll (File_Path file) existingMap) w1
          else
            (case IndexFile E file w1 of
               (Inl err, w2) \<Rightarrow>
                 index_loop E files stats existingMap
                   (w2\<lparr>logged := logged w2 @ [FailedToIndex (File_Path file) err]\<rparr>)
             | (Inr n, w2) \<Rightarrow>
                 index_loop E files
                   (stats\<lparr>FilesIndexed := FilesIndexed stats + 1,
                          ChunksCreated := ChunksCreated stats + n\<rparr>)
                   (removeAll (File_Path file) existingMap) w2))"

text \<open>
  The order of \<open>for path := range existingMap\<close> is not specified by Go: \<open>range_order\<close>
  enumerates the keys in the order \<open>pick\<close> chooses, each key once.
\<close>

fun range_order :: "(string list \<Rightarrow> nat) \<Rightarrow> nat \<Rightarrow> string list \<Rightarrow> string list" where
  "range_order pk 0 keys = []"
| "range_order pk (Suc n) keys =
     (if keys = [] then []
      else (let k = keys ! (pk keys mod length keys) in k # range_order pk n (removeAll k keys)))"

fun remove_loop :: "'v env \<Rightarrow> string list \<Rightarrow> IndexStats \<Rightarrow> 'v world \<Rightarrow> IndexStats \<times> 'v world" where
  "remove_loop E [] stats w = (stats, w)"
| "remove_loop E (path # paths) stats w =
     (case RemoveFile E path w of
        (Inl err, w1) \<Rightarrow>
          remove_loop E paths stats (w1\<lparr>logged := logged w1 @ [FailedToRemove path err]\<rparr>)
      | (Inr _, w1) \<Rightarrow>
          remove_loop E paths (stats\<lparr>FilesRemoved := FilesRemoved stats + 1\<rparr>) w1)"

definition IndexAll :: "'v env \<Rightarrow> 'v world \<Rightarrow> (error + IndexStats) \<times> 'v world" where
  "IndexAll E w =
     (let start = now E (length (calls w)) in
      case Scan E of
        Inl err \<Rightarrow> (Inl (Wrapped ''failed to scan files'' err), w)
      | Inr (files, skipped) \<Rightarrow>
          (let stats = \<lparr>FilesIndexed = 0, FilesSkipped = length skipped, ChunksCreated = 0,
                        FilesRemoved = 0, Duration = 0\<rparr>;
               w0 = w\<lparr>logged := logged w @ map Skipped skipped\<rparr>
           in case ListDocuments E w0 of
                (Inl err, w1) \<Rightarrow> (Inl (Wrapped ''failed to list documents'' err), w1)
              | (Inr existingDocs, w1) \<Rightarrow>
                  (case index_loop E files stats (remdups existingDocs) w1 of
                     (Inl err, w2) \<Rightarrow> (Inl err, w2)
                   | (Inr (stats2, existingMap), w2) \<Rightarrow>
                       (let (stats3, w3) =
                              remove_loop E
                                (range_order (pick E) (length existingMap) existingMap) stats2 w2
                        in (Inr (stats3\<lparr>Duration := now E (length (calls w3)) - start\<rparr>), w3)))))"

section \<open>Package cli: workspace search\<close>

text \<open>
  \<open>runWorkspaceSearch\<close> after its set-up: the workspace is loaded,
  \<open>NormalizeWorkspacePathPrefix\<close> (not among the sources) has returned \<open>normalizedPath\<close>
  and \<open>resolvedProjects\<close>, and the searcher is built. \<open>Search\<close> stands for
  \<open>searcher.Search\<close> with the query and the limit fixed: it takes the path prefix. The
  result is the list of results that is printed, or the error of the search.
\<close>

definition HasPrefix :: "string \<Rightarrow> string \<Rightarrow> bool" where
  "HasPrefix s pre = (length pre \<le> length s \<and> take (length pre) s = pre)"

definition fullPathPrefix :: "string \<Rightarrow> string list \<Rightarrow> string \<Rightarrow> string" where
  "fullPathPrefix wsName resolvedProjects normalizedPath =
     (let p0 = wsName @ ''/'';
          p1 = (if length resolvedProjects = 1 then p0 @ resolvedProjects ! 0 @ ''/'' else p0)
      in if normalizedPath \<noteq> [] then p1 @ normalizedPath else p1)"

fun in_projects :: "string \<Rightarrow> string list \<Rightarrow> string \<Rightarrow> bool" where
  "in_projects wsName [] filePath = False"
| "in_projects wsName (projectName # rest) filePath =
     (if HasPrefix filePath (wsName @ ''/'' @ projectName @ ''/'') then True
      else in_projects wsName rest filePath)"

fun filter_projects ::
  "string \<Rightarrow> string list \<Rightarrow> ('v, 's) SearchResult list \<Rightarrow> ('v, 's) SearchResult list" where
  "filter_projects wsName projects [] = []"
| "filter_projects wsName projects (r # rs) =
     (if in_projects wsName projects (Chunk_FilePath (Result_Chunk r))
      then r # filter_projects wsName projects rs
      else filter_projects wsName projects rs)"

definition runWorkspaceSearch ::
  "(string \<Rightarrow> 'e + ('v, 's) SearchResult list) \<Rightarrow> string \<Rightarrow> string list \<Rightarrow> string \<Rightarrow>
   'e + ('v, 's) SearchResult list" where
  "runWorkspaceSearch Search wsName resolvedProjects normalizedPath =
     (case Search (fullPathPrefix wsName resolvedProjects normalizedPath) of
        Inl err \<Rightarrow> Inl err
      | Inr results \<Rightarrow>
          Inr (if length resolvedProjects > 0
               then filter_projects wsName resolvedProjects results
               else results))"

text \<open>A search result at a given path, for examples.\<close>

definition demo_result :: "string \<Rightarrow> (nat, nat) SearchResult" where
  "demo_result path =
     \<lparr>Result_Chunk = \<lparr>Chunk_ID = path, Chunk_FilePath = path, Chunk_StartLine = 1,
                       Chunk_EndLine = 1, Chunk_Content = [], Chunk_Vector = 0,
                       Chunk_Hash = [], Chunk_UpdatedAt = 0\<rparr>,
      Result_Score = 0\<rparr>"

definition demo_search :: "string \<Rightarrow> unit + (nat, nat) SearchResult list" where
  "demo_search pre =
     Inr (filter (\<lambda>r. HasPrefix (Chunk_FilePath (Result_Chunk r)) pre)
            [demo_result ''ws/api/a.go'', demo_result ''ws/db/c.go'', demo_result ''ws/web/b.go''])"

section \<open>Observing a run\<close>

text \<open>The calls made between two states of a run.\<close>

definition new_calls :: "'v world \<Rightarrow> 'v world \<Rightarrow> (op \<times> bool) list" where
  "new_calls w w' = drop (length (calls w)) (calls w')"

definition new_logged :: "'v world \<Rightarrow> 'v world \<Rightarrow> log_line list" where
  "new_logged w w' = drop (length (logged w)) (logged w')"

text \<open>
  \<open>steps Q w w'\<close>: from \<open>w\<close> to \<open>w'\<close> the run has only added calls, all of them among
  \<open>Q\<close>, and has left the durable copy of the store alone.
\<close>

definition steps :: "(op \<Rightarrow> bool) \<Rightarrow> 'v world \<Rightarrow> 'v world \<Rightarrow> bool" where
  "steps Q w w' =
     (disk w' = disk w \<and> calls w' = calls w @ new_calls w w' \<and>
      list_all (\<lambda>e. Q (fst e)) (new_calls w w'))"

text \<open>The operations \<open>IndexAll\<close> can make: all but \<open>Load\<close> and \<open>Persist\<close>.\<close>

fun indexer_call :: "op \<Rightarrow> bool" where
  "indexer_call OpLoad = False"
| "indexer_call OpPersist = False"
| "indexer_call c = True"

text \<open>The calls of \<open>IndexFile\<close>, of the indexing loop and of the removal loop.\<close>

fun file_call :: "op \<Rightarrow> bool" where
  "file_call (OpDeleteByFile p) = True"
| "file_call (OpEmbedBatch texts) = True"
| "file_call (OpSaveChunks ids) = True"
| "file_call (OpSaveDocument doc) = True"
| "file_call c = False"

fun is_get :: "op \<Rightarrow> bool" where
  "is_get (OpGetDocument p) = True"
| "is_get c = False"

definition index_phase_call :: "op \<Rightarrow> bool" where
  "index_phase_call c = (is_get c \<or> file_call c)"

fun removal_call :: "op \<Rightarrow> bool" where
  "removal_call (OpDeleteByFile p) = True"
| "removal_call (OpDeleteDocument p) = True"
| "removal_call c = False"

text \<open>
  Referential integrity of the documents (invariant 1 of the data model): every chunk id
  of every stored document is the id of a stored chunk of that document's path.
\<close>

definition chunk_refs_ok :: "'v world \<Rightarrow> bool" where
  "chunk_refs_ok w =
     list_all (\<lambda>kd. list_all (\<lambda>i. case map_of (chunks w) i of
                                    None \<Rightarrow> False
                                  | Some c \<Rightarrow> Chunk_FilePath c = Doc_Path (snd kd))
                       (Doc_ChunkIDs (snd kd)))
       (documents w)"

subsection \<open>A small project for examples\<close>

text \<open>
  A chunker that makes one chunk of a file that has content and none of an empty file, an
  embedder that maps a text to its length, and a clock that counts the calls.
\<close>

definition demo_chunker :: "string \<Rightarrow> string \<Rightarrow> ChunkInfo list" where
  "demo_chunker path content =
     (if content = [] then []
      else [\<lparr>Info_ID = path @ ''#1'', Info_FilePath = path, Info_StartLine = 1,
              Info_EndLine = 1, Info_Content = content, Info_Hash = content\<rparr>])"

definition demo_env ::
  "FileInfo list \<Rightarrow> (nat \<Rightarrow> op \<Rightarrow> bool) \<Rightarrow> (string list \<Rightarrow> nat) \<Rightarrow> nat env" where
  "demo_env files fs pk =
     \<lparr>Scan = Inr (files, []), ChunkWithContext = demo_chunker, embed = length, fails = fs,
      now = int, pick = pk\<rparr>"

definition demo_file :: "string \<Rightarrow> string \<Rightarrow> string \<Rightarrow> FileInfo" where
  "demo_file path hash content =
     \<lparr>File_Path = path, File_Hash = hash, File_Content = content, File_ModTime = 0\<rparr>"

definition demo_chunk :: "string \<Rightarrow> string \<Rightarrow> int \<Rightarrow> nat Chunk" where
  "demo_chunk path content stamp =
     \<lparr>Chunk_ID = path @ ''#1'', Chunk_FilePath = path, Chunk_StartLine = 1, Chunk_EndLine = 1,
      Chunk_Content = content, Chunk_Vector = length content, Chunk_Hash = content,
      Chunk_UpdatedAt = stamp\<rparr>"

definition demo_doc :: "string \<Rightarrow> string \<Rightarrow> Document" where
  "demo_doc path hash =
     \<lparr>Doc_Path = path, Doc_Hash = hash, Doc_ModTime = 0, Doc_ChunkIDs = [path @ ''#1'']\<rparr>"

definition never :: "nat \<Rightarrow> op \<Rightarrow> bool" where
  "never n c = False"

definition empty_world :: "nat world" where
  "empty_world = \<lparr>chunks = [], documents = [], disk = ([], []), calls = [], logged = []\<rparr>"

text \<open>A store that holds one file, \<open>a.txt\<close>, with its one chunk, in memory and on disk.\<close>

definition one_file_world :: "nat world" where
  "one_file_world =
     \<lparr>chunks = [(''a.txt#1'', demo_chunk ''a.txt'' ''x'' 0)],
      documents = [(''a.txt'', demo_doc ''a.txt'' ''h1'')],
      disk = ([(''a.txt#1'', demo_chunk ''a.txt'' ''x'' 0)], [(''a.txt'', demo_doc ''a.txt'' ''h1'')]),
      calls = [], logged = []\<rparr>"

text \<open>Two enumeration orders of a Go map: the first key first, the last key first.\<close>

definition first_key :: "string list \<Rightarrow> nat" where
  "first_key keys = 0"

definition last_key :: "string list \<Rightarrow> nat" where
  "last_key keys = length keys - 1"

subsection \<open>Counting what a run logs and saves\<close>

fun failed_to_index :: "log_line \<Rightarrow> bool" where
  "failed_to_index (FailedToIndex path err) = True"
| "failed_to_index l = False"

text \<open>The number of files a run has logged as failed to index.\<close>

definition failures :: "log_line list \<Rightarrow> nat" where
  "failures ls = length (filter failed_to_index ls)"

fun saved_by :: "op \<times> bool \<Rightarrow> nat" where
  "saved_by (OpSaveDocument doc, ok) = (if ok then length (Doc_ChunkIDs doc) else 0)"
| "saved_by c = 0"

text \<open>The number of chunks listed by the documents that a sequence of calls has saved.\<close>

definition saved_chunks :: "(op \<times> bool) list \<Rightarrow> nat" where
  "saved_chunks cs = sum_list (map saved_by cs)"

text \<open>Failures for examples: the embedder rejects one text, the store one deletion.\<close>

definition embed_fails_on :: "string \<Rightarrow> nat \<Rightarrow> op \<Rightarrow> bool" where
  "embed_fails_on content n c = (c = OpEmbedBatch [content])"

definition delete_fails_on :: "string \<Rightarrow> nat \<Rightarrow> op \<Rightarrow> bool" where
  "delete_fails_on path n c = (c = OpDeleteByFile path)"

text \<open>A store that holds two files, \<open>a.txt\<close> and \<open>old.txt\<close>, each with one chunk.\<close>

definition two_file_world :: "nat world" where
  "two_file_world =
     \<lparr>chunks = [(''a.txt#1'', demo_chunk ''a.txt'' ''x'' 0),
                (''old.txt#1'', demo_chunk ''old.txt'' ''o'' 0)],
      documents = [(''a.txt'', demo_doc ''a.txt'' ''h1''), (''old.txt'', demo_doc ''old.txt'' ''h0'')],
      disk = ([], []), calls = [], logged = []\<rparr>"

text \<open>The calls of the removal loop when it removes the given paths and no call fails.\<close>

definition removal_calls :: "string list \<Rightarrow> (op \<times> bool) list" where
  "removal_calls ps = concat (map (\<lambda>p. [(OpDeleteByFile p, True), (OpDeleteDocument p, True)]) ps)"

subsection \<open>Indexing again\<close>

text \<open>
  A file is settled in a store when indexing it again leaves the store as it is: its
  document has the hash of the file, or the file yields no chunk and the store holds no
  chunk of its path.
\<close>

definition settled :: "'v env \<Rightarrow> 'v world \<Rightarrow> FileInfo \<Rightarrow> bool" where
  "settled E w f =
     (unchanged (map_of (documents w) (File_Path f)) f \<or>
      (ChunkWithContext E (File_Path f) (File_Content f) = [] \<and>
       list_all (\<lambda>kc. Chunk_FilePath (snd kc) \<noteq> File_Path f) (chunks w)))"

text \<open>The calls that change nothing in the store.\<close>

fun quiet_call :: "op \<Rightarrow> bool" where
  "quiet_call OpListDocuments = True"
| "quiet_call (OpGetDocument p) = True"
| "quiet_call (OpDeleteByFile p) = True"
| "quiet_call c = False"

text \<open>The calls that only read the store.\<close>

fun read_call :: "op \<Rightarrow> bool" where
  "read_call OpListDocuments = True"
| "read_call (OpGetDocument p) = True"
| "read_call c = False"

subsection \<open>Runs that log no failed file\<close>

text \<open>The lines of the log that report a file that could not be indexed or removed.\<close>

fun failed_line :: "log_line \<Rightarrow> bool" where
  "failed_line (Skipped path) = False"
| "failed_line (FailedToIndex path err) = True"
| "failed_line (FailedToRemove path err) = True"

text \<open>A single failure: the call made after \<open>k\<close> earlier calls fails, no other does.\<close>

definition fails_once :: "nat \<Rightarrow> nat \<Rightarrow> op \<Rightarrow> bool" where
  "fails_once k n c = (n = k)"

subsection \<open>Counting removals\<close>

fun failed_to_remove :: "log_line \<Rightarrow> bool" where
  "failed_to_remove (FailedToRemove path err) = True"
| "failed_to_remove l = False"

text \<open>The number of paths a run has logged as failed to remove.\<close>

definition removal_failures :: "log_line list \<Rightarrow> nat" where
  "removal_failures ls = length (filter failed_to_remove ls)"

text \<open>A \<open>DeleteDocument\<close> call that returned no error.\<close>

fun deleted_document :: "op \<times> bool \<Rightarrow> bool" where
  "deleted_document (OpDeleteDocument path, ok) = ok"
| "deleted_document c = False"

subsection \<open>Comparing two runs\<close>

text \<open>
  Two runs read the clock at different times: \<open>Chunk.UpdatedAt\<close> and \<open>Duration\<close> differ
  between them. \<open>untimed_chunks\<close> is the chunk table without the time stamps,
  \<open>counters\<close> the statistics without the duration, \<open>outcome\<close> the result of a run
  without the duration.
\<close>

definition untimed :: "'v Chunk \<Rightarrow> 'v Chunk" where
  "untimed c = c\<lparr>Chunk_UpdatedAt := 0\<rparr>"

definition untimed_chunks :: "(string \<times> 'v Chunk) list \<Rightarrow> (string \<times> 'v Chunk) list" where
  "untimed_chunks cs = map (\<lambda>kc. (fst kc, untimed (snd kc))) cs"

definition counters :: "IndexStats \<Rightarrow> nat \<times> nat \<times> nat \<times> nat" where
  "counters s = (FilesIndexed s, FilesSkipped s, ChunksCreated s, FilesRemoved s)"

definition outcome :: "error + IndexStats \<Rightarrow> error + nat \<times> nat \<times> nat \<times> nat" where
  "outcome r = (case r of Inl err \<Rightarrow> Inl err | Inr s \<Rightarrow> Inr (counters s))"

text \<open>Two states of the store that differ at most in the time stamps of the chunks.\<close>

definition same_upto_time :: "'v world \<Rightarrow> 'v world \<Rightarrow> bool" where
  "same_upto_time w v =
     (untimed_chunks (chunks w) = untimed_chunks (chunks v) \<and> documents w = documents v \<and>
      calls w = calls v \<and> logged w = logged v)"

text \<open>A clock that runs at another pace, for examples.\<close>

definition slow_clock :: "nat \<Rightarrow> int" where
  "slow_clock n = 2 * int n"

text \<open>The embedding calls, and the calls that save chunks or documents.\<close>

fun is_embed :: "op \<Rightarrow> bool" where
  "is_embed (OpEmbedBatch texts) = True"
| "is_embed c = False"

fun is_save :: "op \<Rightarrow> bool" where
  "is_save (OpSaveChunks ids) = True"
| "is_save (OpSaveDocument doc) = True"
| "is_save c = False"

section \<open>Token savings: theorems\<close>

lemma sint_times_1536:
  fixes rc :: go_int
  assumes "- (2 ^ 63) \<le> sint rc * 1536" "sint rc * 1536 < 2 ^ 63"
  shows "sint (rc * 512 * 3) = sint rc * 512 * 3"
proof -
  have "rc * 512 * 3 = rc * 1536" by simp
  moreover have "sint (rc * 1536) = signed_take_bit 63 (sint rc * sint (1536 :: go_int))"
    by (simp add: sint_word_ariths)
  moreover have "sint (1536 :: go_int) = 1536" by simp
  ultimately show ?thesis using assms
    by (simp add: signed_take_bit_int_eq_self mult.commute)
qed

text \<open>
  C8. \<open>GrepEquivalentTokens\<close> returns \<open>MinGrepTokens = 50\<close> for a result count of 0 and
  \<open>resultCount * DefaultChunkTokens * GrepExpansionFactor = resultCount * 512 * 3\<close> for
  every positive result count, in Go's integer arithmetic; as long as the product fits 64
  bits (every count a search can return), that is the product of the integers.
\<close>

theorem GrepEquivalentTokens_exact:
  "GrepEquivalentTokens 0 = MinGrepTokens \<and> MinGrepTokens = 50 \<and>
   (0 <s resultCount \<longrightarrow>
      GrepEquivalentTokens resultCount = resultCount * DefaultChunkTokens * GrepExpansionFactor \<and>
      GrepEquivalentTokens resultCount = resultCount * 512 * 3) \<and>
   (0 <s resultCount \<and> sint resultCount * 1536 < 2 ^ 63 \<longrightarrow>
      sint (GrepEquivalentTokens resultCount) = sint resultCount * 512 * 3)"
proof -
  have exact: "sint (GrepEquivalentTokens resultCount) = sint resultCount * 512 * 3"
    if pos: "0 <s resultCount" and small: "sint resultCount * 1536 < 2 ^ 63"
  proof -
    from pos have nz: "resultCount \<noteq> 0" by auto
    from pos have "- (2 ^ 63) \<le> sint resultCount * 1536" by (simp add: word_sless_alt)
    from sint_times_1536 [OF this small] nz show ?thesis
      by (simp add: GrepEquivalentTokens_def DefaultChunkTokens_def GrepExpansionFactor_def)
  qed
  have "GrepEquivalentTokens resultCount = resultCount * 512 * 3" if "0 <s resultCount"
    using that
    by (auto simp: GrepEquivalentTokens_def DefaultChunkTokens_def GrepExpansionFactor_def)
  with exact show ?thesis
    by (simp add: GrepEquivalentTokens_def MinGrepTokens_def DefaultChunkTokens_def
          GrepExpansionFactor_def)
qed

theorem GrepEquivalentTokens_exact_witness:
  "0 <s (4 :: go_int) \<and> sint (4 :: go_int) * 1536 < 2 ^ 63 \<and>
   GrepEquivalentTokens 4 = 6144 \<and> sint (GrepEquivalentTokens 4) = 4 * 512 * 3 \<and>
   GrepEquivalentTokens 0 = 50"
  using GrepEquivalentTokens_exact [of 4]
  by (simp add: word_sless_alt DefaultChunkTokens_def GrepExpansionFactor_def MinGrepTokens_def)

lemma summarize_loop_fields:
  "Summary_GrepTokens (summarize_loop es s) = Summary_GrepTokens s + sum_list (map GrepTokens es) \<and>
   Summary_OutputTokens (summarize_loop es s) =
     Summary_OutputTokens s + sum_list (map OutputTokens es) \<and>
   SavingsPct (summarize_loop es s) = SavingsPct s \<and>
   TokensSaved (summarize_loop es s) = TokensSaved s"
  by (induction es arbitrary: s) (simp_all add: algebra_simps)

lemma word_sum_of_sint:
  "(sum_list (map GrepTokens es) :: go_int) =
     word_of_int (sum_list (map (\<lambda>e. sint (GrepTokens e)) es))"
  by (induction es) simp_all

text \<open>
  C9. \<open>Summarize\<close> never divides by zero. Its \<open>GrepTokens\<close> and \<open>OutputTokens\<close> are the
  sums over the entries and \<open>TokensSaved\<close> is their difference. When the grep tokens of
  the entries sum to 0, and whenever the sum is not positive, \<open>SavingsPct\<close> is the zero
  value, no division taking place; when the sum is positive, \<open>SavingsPct\<close> is
  \<open>float64(TokensSaved) / float64(GrepTokens) * 100\<close>.
\<close>

theorem Summarize_no_division_by_zero:
  "Summary_GrepTokens (Summarize F entries provider) = sum_list (map GrepTokens entries) \<and>
   Summary_OutputTokens (Summarize F entries provider) = sum_list (map OutputTokens entries) \<and>
   TokensSaved (Summarize F entries provider) =
     Summary_GrepTokens (Summarize F entries provider) -
     Summary_OutputTokens (Summarize F entries provider) \<and>
   (sum_list (map (\<lambda>e. sint (GrepTokens e)) entries) = 0 \<longrightarrow>
      SavingsPct (Summarize F entries provider) = float64 F 0) \<and>
   (\<not> 0 <s Summary_GrepTokens (Summarize F entries provider) \<longrightarrow>
      SavingsPct (Summarize F entries provider) = float64 F 0) \<and>
   (0 <s Summary_GrepTokens (Summarize F entries provider) \<longrightarrow>
      SavingsPct (Summarize F entries provider) =
        fmul F (fdiv F (float64 F (sint (TokensSaved (Summarize F entries provider))))
                       (float64 F (sint (Summary_GrepTokens (Summarize F entries provider)))))
               (float64 F 100))"
  by (simp add: Summarize_def Let_def summarize_loop_fields word_sum_of_sint)

theorem Summarize_no_division_by_zero_witness:
  "sum_list (map (\<lambda>e. sint (GrepTokens e)) []) = 0 \<and>
   \<not> 0 <s Summary_GrepTokens (Summarize real_ops [] ''ollama'') \<and>
   SavingsPct (Summarize real_ops [] ''ollama'') = 0 \<and>
   0 <s Summary_GrepTokens (Summarize real_ops [demo_entry] ''openai'') \<and>
   TokensSaved (Summarize real_ops [demo_entry] ''openai'') = 1848 \<and>
   SavingsPct (Summarize real_ops [demo_entry] ''openai'') = 1848 / 2048 * 100"
  using Summarize_no_division_by_zero [of real_ops "[]" "''ollama''"]
        Summarize_no_division_by_zero [of real_ops "[demo_entry]" "''openai''"]
  by (simp add: real_ops_def demo_entry_def word_sless_alt)

section \<open>Reading the stats file: theorems\<close>

lemma read_loop_entries:
  "fst (read_loop T U ts n es ws) = es @ List.map_filter (line_entry T U) ts"
  by (induction ts arbitrary: n es ws)
     (simp_all add: Let_def line_entry_def split: option.splits)

lemma scan_lines_too_long:
  "CHR 0x0A \<notin> set xs \<Longrightarrow> xs \<noteq> [] \<Longrightarrow> MaxScanTokenSize \<le> length line + length xs \<Longrightarrow>
   scan_lines line (xs @ rest) = ([], True)"
proof (induction xs arbitrary: line)
  case Nil
  then show ?case by simp
next
  case (Cons c xs)
  from Cons.prems have c: "c \<noteq> CHR 0x0A" by auto
  show ?case
  proof (cases "MaxScanTokenSize \<le> length line + 1")
    case True
    with c show ?thesis by simp
  next
    case False
    from Cons.prems have "CHR 0x0A \<notin> set xs" by simp
    moreover from False Cons.prems have "xs \<noteq> []" by auto
    moreover from Cons.prems have "MaxScanTokenSize \<le> length (line @ [c]) + length xs" by simp
    ultimately have "scan_lines (line @ [c]) (xs @ rest) = ([], True)" by (rule Cons.IH)
    with False c show ?thesis by simp
  qed
qed

text \<open>
  C10. \<open>ReadAll\<close> does not skip every non-JSON line. A short line that is not JSON is
  skipped with a warning and the well-formed line after it gives its entry. A line of
  65536 bytes that is not JSON is not skipped: the scanner stops at it, \<open>ReadAll\<close>
  returns an error, and the well-formed line after it contributes no entry.
\<close>

theorem ReadAll_long_line_not_skipped:
  "ReadAll demo_trim demo_unmarshal (Opened (''not json'' @ [CHR 0x0A] @ ''ok'' @ [CHR 0x0A]) False) =
     (([demo_entry], None), [1]) \<and>
   line_entry demo_trim demo_unmarshal (replicate 65536 (CHR ''x'')) = None \<and>
   line_entry demo_trim demo_unmarshal ''ok'' = Some demo_entry \<and>
   ReadAll demo_trim demo_unmarshal
     (Opened (replicate 65536 (CHR ''x'') @ [CHR 0x0A] @ ''ok'' @ [CHR 0x0A]) False) =
     (([], Some ReadError), [])"
proof -
  have short: "ReadAll demo_trim demo_unmarshal
      (Opened (''not json'' @ [CHR 0x0A] @ ''ok'' @ [CHR 0x0A]) False) = (([demo_entry], None), [1])"
    by (simp add: ReadAll_def MaxScanTokenSize_def dropCR_def demo_trim_def demo_unmarshal_def
          Let_def)
  have len: "length (filter (\<lambda>c. c \<noteq> CHR '' '') (replicate 65536 (CHR ''x''))) = 65536"
    by (simp only: filter_replicate) simp
  have "filter (\<lambda>c. c \<noteq> CHR '' '') (replicate 65536 (CHR ''x'')) \<noteq> []"
  proof
    assume "filter (\<lambda>c. c \<noteq> CHR '' '') (replicate 65536 (CHR ''x'')) = []"
    then have "length (filter (\<lambda>c. c \<noteq> CHR '' '') (replicate 65536 (CHR ''x''))) = 0"
      by (simp only: list.size)
    with len show False by simp
  qed
  moreover have "filter (\<lambda>c. c \<noteq> CHR '' '') (replicate 65536 (CHR ''x'')) \<noteq> ''ok''"
  proof
    assume "filter (\<lambda>c. c \<noteq> CHR '' '') (replicate 65536 (CHR ''x'')) = ''ok''"
    then have "length (filter (\<lambda>c. c \<noteq> CHR '' '') (replicate 65536 (CHR ''x''))) = length ''ok''"
      by (simp only:)
    with len show False by simp
  qed
  ultimately have long_line: "line_entry demo_trim demo_unmarshal (replicate 65536 (CHR ''x'')) = None"
    by (simp only: line_entry_def demo_trim_def demo_unmarshal_def if_False)
  have ok: "line_entry demo_trim demo_unmarshal ''ok'' = Some demo_entry"
    by (simp add: line_entry_def demo_trim_def demo_unmarshal_def)
  have "CHR 0x0A \<notin> set (replicate 65536 (CHR ''x''))"
    by (simp only: set_replicate_conv_if) simp
  moreover have "replicate 65536 (CHR ''x'') \<noteq> []"
    by (simp only: replicate_empty)
  moreover have "MaxScanTokenSize \<le> length ([] :: string) + length (replicate 65536 (CHR ''x''))"
    by (simp only: length_replicate MaxScanTokenSize_def)
  ultimately have "scan_lines [] (replicate 65536 (CHR ''x'') @ ([CHR 0x0A] @ ''ok'' @ [CHR 0x0A])) =
      ([], True)"
    by (rule scan_lines_too_long)
  then have long: "ReadAll demo_trim demo_unmarshal
      (Opened (replicate 65536 (CHR ''x'') @ [CHR 0x0A] @ ''ok'' @ [CHR 0x0A]) False) =
      (([], Some ReadError), [])"
    by (simp only: ReadAll_def stats_file.case Let_def prod.case read_loop.simps) simp
  from short long_line ok long show ?thesis by (intro conjI)
qed

section \<open>Workspace search: theorems\<close>

lemma HasPrefix_iff: "HasPrefix s pre \<longleftrightarrow> (\<exists>rest. s = pre @ rest)"
  unfolding HasPrefix_def
  by (metis append_eq_conv_conj append_take_drop_id length_append le_add1)

lemma in_projects_iff:
  "in_projects ws ps path \<longleftrightarrow> (\<exists>p\<in>set ps. \<exists>rest. path = ws @ ''/'' @ p @ ''/'' @ rest)"
  by (induction ps) (auto simp: HasPrefix_iff)

lemma filter_projects_eq:
  "filter_projects ws ps rs =
     filter (\<lambda>r. in_projects ws ps (Chunk_FilePath (Result_Chunk r))) rs"
  by (induction rs) simp_all

text \<open>
  C7, as the claim states it, fails: with one resolved project and a path option, the
  prefix passed to the search is not \<open>workspace_name/project_name/\<close> but that followed by
  the normalized path.
\<close>

theorem single_project_prefix_counterexample:
  "fullPathPrefix ''ws'' [''api''] ''src/'' = ''ws/api/src/'' \<and>
   fullPathPrefix ''ws'' [''api''] ''src/'' \<noteq> ''ws'' @ ''/'' @ ''api'' @ ''/''"
  by (simp add: fullPathPrefix_def)

text \<open>
  C7, amended. With exactly one resolved project \<open>p\<close> the prefix passed to the search is
  \<open>workspace_name/p/\<close> followed by the normalized path (so \<open>workspace_name/p/\<close> itself when
  no path is given); with any other number of projects it is \<open>workspace_name/\<close> followed by
  the normalized path. When at least one project is resolved, the results returned are
  exactly those results of the search whose file path starts with \<open>workspace_name/p/\<close>
  for a requested project \<open>p\<close>, in the order of the search: no result outside the
  requested projects is returned.
\<close>

theorem workspace_search_project_filter:
  "fullPathPrefix ws [p] np = ws @ ''/'' @ p @ ''/'' @ np \<and>
   fullPathPrefix ws [p] [] = ws @ ''/'' @ p @ ''/'' \<and>
   (length ps \<noteq> 1 \<longrightarrow> fullPathPrefix ws ps np = ws @ ''/'' @ np) \<and>
   (ps \<noteq> [] \<and> runWorkspaceSearch Search ws ps np = Inr shown \<longrightarrow>
      (\<exists>results. Search (fullPathPrefix ws ps np) = Inr results \<and>
         shown = filter (\<lambda>r. \<exists>p\<in>set ps. \<exists>rest.
                     Chunk_FilePath (Result_Chunk r) = ws @ ''/'' @ p @ ''/'' @ rest) results) \<and>
      (\<forall>r\<in>set shown. \<exists>p\<in>set ps. \<exists>rest.
         Chunk_FilePath (Result_Chunk r) = ws @ ''/'' @ p @ ''/'' @ rest))"
proof -
  have one: "fullPathPrefix ws [p] np = ws @ ''/'' @ p @ ''/'' @ np" for np
    by (simp add: fullPathPrefix_def Let_def)
  have many: "length ps \<noteq> 1 \<Longrightarrow> fullPathPrefix ws ps np = ws @ ''/'' @ np"
    by (simp add: fullPathPrefix_def Let_def)
  have shown: "\<exists>results. Search (fullPathPrefix ws ps np) = Inr results \<and>
         shown = filter (\<lambda>r. \<exists>p\<in>set ps. \<exists>rest.
                     Chunk_FilePath (Result_Chunk r) = ws @ ''/'' @ p @ ''/'' @ rest) results"
    if "ps \<noteq> []" "runWorkspaceSearch Search ws ps np = Inr shown"
    using that
    by (auto simp: runWorkspaceSearch_def filter_projects_eq in_projects_iff split: sum.splits)
  from one [of np] one [of "[]"] many shown show ?thesis by (intro conjI impI) auto
qed

theorem workspace_search_project_filter_witness:
  "length [''api'', ''web''] \<noteq> 1 \<and> [''api'', ''web''] \<noteq> [] \<and>
   fullPathPrefix ''ws'' [''api'', ''web''] [] = ''ws/'' \<and>
   runWorkspaceSearch demo_search ''ws'' [''api'', ''web''] [] =
     Inr [demo_result ''ws/api/a.go'', demo_result ''ws/web/b.go'']"
  using workspace_search_project_filter
          [of "''ws''" "''api''" "[]" "[''api'', ''web'']" demo_search
              "[demo_result ''ws/api/a.go'', demo_result ''ws/web/b.go'']"]
  by (simp add: fullPathPrefix_def runWorkspaceSearch_def demo_search_def demo_result_def
        HasPrefix_def)

section \<open>The indexer: theorems\<close>

subsection \<open>Calls and what they leave alone\<close>

lemma call_eq:
  "call E c w = (\<not> fails E (length (calls w)) c,
                 w\<lparr>calls := calls w @ [(c, \<not> fails E (length (calls w)) c)]\<rparr>)"
  by (simp add: call_def Let_def)

lemmas store_defs = SaveChunks_def DeleteByFile_def GetDocument_def SaveDocument_def
  DeleteDocument_def ListDocuments_def EmbedBatch_def call_eq

lemmas demo_defs = demo_env_def demo_file_def demo_chunker_def demo_chunk_def demo_doc_def
  never_def empty_world_def one_file_world_def first_key_def last_key_def store_chunk_def
  unchanged_def new_calls_def new_logged_def

lemma steps_refl: "steps Q w w"
  by (simp add: steps_def new_calls_def)

lemma steps_trans: "steps Q w w1 \<Longrightarrow> steps Q w1 w2 \<Longrightarrow> steps Q w w2"
  unfolding steps_def new_calls_def
  by (metis (no_types, lifting) append.assoc append_eq_conv_conj list_all_append)

lemma steps_logged: "steps Q w w' \<Longrightarrow> steps Q w (w'\<lparr>logged := l\<rparr>)"
  by (simp add: steps_def new_calls_def)

lemma steps_GetDocument: "Q (OpGetDocument p) \<Longrightarrow> steps Q w (snd (GetDocument E p w))"
  by (simp add: store_defs steps_def new_calls_def)

lemma steps_ListDocuments: "Q OpListDocuments \<Longrightarrow> steps Q w (snd (ListDocuments E w))"
  by (simp add: store_defs steps_def new_calls_def)

lemma steps_mono: "steps P w w' \<Longrightarrow> (\<And>c. P c \<Longrightarrow> Q c) \<Longrightarrow> steps Q w w'"
  unfolding steps_def by (simp add: list_all_iff)

lemma indexer_call_cases: "index_phase_call c \<or> removal_call c \<Longrightarrow> indexer_call c"
  by (cases c) (simp_all add: index_phase_call_def)

lemma steps_IndexFile: "steps file_call w (snd (IndexFile E f w))"
  by (simp add: IndexFile_def store_defs steps_def new_calls_def Let_def)

lemma steps_RemoveFile: "steps removal_call w (snd (RemoveFile E p w))"
  by (simp add: RemoveFile_def store_defs steps_def new_calls_def Let_def)

lemma steps_index_loop: "steps index_phase_call w (snd (index_loop E files stats ex w))"
proof (induction files arbitrary: stats ex w)
  case Nil
  show ?case by (simp add: steps_refl)
next
  case (Cons f files)
  let ?w1 = "snd (GetDocument E (File_Path f) w)"
  let ?w2 = "snd (IndexFile E f ?w1)"
  have s1: "steps index_phase_call w ?w1"
    by (simp add: steps_GetDocument index_phase_call_def)
  have "steps index_phase_call ?w1 ?w2"
    by (rule steps_mono [OF steps_IndexFile]) (simp add: index_phase_call_def)
  with s1 have s2: "steps index_phase_call w ?w2" by (rule steps_trans)
  have s3: "steps index_phase_call w (?w2\<lparr>logged := l\<rparr>)" for l
    using s2 by (rule steps_logged)
  show ?case
    using s1 steps_trans [OF s1 Cons.IH] steps_trans [OF s2 Cons.IH] steps_trans [OF s3 Cons.IH]
    by (auto split: prod.splits sum.splits)
qed

lemma steps_remove_loop: "steps removal_call w (snd (remove_loop E ps stats w))"
proof (induction ps arbitrary: stats w)
  case Nil
  show ?case by (simp add: steps_refl)
next
  case (Cons p ps)
  let ?w1 = "snd (RemoveFile E p w)"
  have s1: "steps removal_call w ?w1" by (rule steps_RemoveFile)
  have s2: "steps removal_call w (?w1\<lparr>logged := l\<rparr>)" for l
    using s1 by (rule steps_logged)
  show ?case
    using steps_trans [OF s1 Cons.IH] steps_trans [OF s2 Cons.IH]
    by (auto split: prod.splits sum.splits)
qed

lemma steps_IndexAll: "steps indexer_call w (snd (IndexAll E w))"
proof -
  have s0: "steps indexer_call w (w\<lparr>logged := l\<rparr>)" for l
    by (rule steps_logged) (rule steps_refl)
  have s1: "steps indexer_call w (snd (ListDocuments E (w\<lparr>logged := l\<rparr>)))" for l
    using s0 [of l] by (rule steps_trans) (simp add: steps_ListDocuments)
  have i: "steps indexer_call v (snd (index_loop E files stats ex v))" for v files stats ex
    by (rule steps_mono [OF steps_index_loop]) (simp add: indexer_call_cases)
  have r: "steps indexer_call v (snd (remove_loop E ps stats v))" for v ps stats
    by (rule steps_mono [OF steps_remove_loop]) (simp add: indexer_call_cases)
  have s2: "steps indexer_call w
    (snd (index_loop E files stats ex (snd (ListDocuments E (w\<lparr>logged := l\<rparr>)))))"
    for l files stats ex
    using s1 i by (rule steps_trans)
  have s3: "steps indexer_call w
    (snd (remove_loop E ps stats'
       (snd (index_loop E files stats ex (snd (ListDocuments E (w\<lparr>logged := l\<rparr>)))))))"
    for l files stats ex ps stats'
    using s2 r by (rule steps_trans)
  show ?thesis
    unfolding IndexAll_def Let_def
    using s1 s2 s3
    by (simp add: steps_refl case_prod_beta sum.case_eq_if)
qed

subsection \<open>No flush at the end of a run\<close>

text \<open>
  C1, as the claim states it, fails. Indexing one new file into an empty store returns
  without error; the calls of the run, in order, are \<open>ListDocuments\<close>, \<open>GetDocument\<close>,
  \<open>DeleteByFile\<close>, \<open>EmbedBatch\<close>, \<open>SaveChunks\<close>, \<open>SaveDocument\<close>, with no \<open>Persist\<close> at
  the end or anywhere.
\<close>

theorem IndexAll_no_persist_counterexample:
  "fst (IndexAll (demo_env [demo_file ''a.txt'' ''h1'' ''x''] never first_key) empty_world) =
     Inr \<lparr>FilesIndexed = 1, FilesSkipped = 0, ChunksCreated = 1, FilesRemoved = 0,
          Duration = 6\<rparr> \<and>
   map fst (new_calls empty_world
      (snd (IndexAll (demo_env [demo_file ''a.txt'' ''h1'' ''x''] never first_key) empty_world))) =
     [OpListDocuments, OpGetDocument ''a.txt'', OpDeleteByFile ''a.txt'', OpEmbedBatch [''x''],
      OpSaveChunks [''a.txt#1''], OpSaveDocument (demo_doc ''a.txt'' ''h1'')] \<and>
   documents
     (snd (IndexAll (demo_env [demo_file ''a.txt'' ''h1'' ''x''] never first_key) empty_world)) =
     [(''a.txt'', demo_doc ''a.txt'' ''h1'')]"
  by (simp add: IndexAll_def IndexFile_def store_defs demo_defs Let_def)

text \<open>
  C1, amended. \<open>IndexAll\<close> never calls \<open>Persist\<close>: whatever the scan, the store and the
  failures, every call of a run is one of \<open>ListDocuments\<close>, \<open>GetDocument\<close>,
  \<open>DeleteByFile\<close>, \<open>EmbedBatch\<close>, \<open>SaveChunks\<close>, \<open>SaveDocument\<close> and \<open>DeleteDocument\<close>.
\<close>

theorem IndexAll_never_persists:
  "calls (snd (IndexAll E w)) = calls w @ new_calls w (snd (IndexAll E w)) \<and>
   list_all (\<lambda>e. indexer_call (fst e)) (new_calls w (snd (IndexAll E w))) \<and>
   list_all (\<lambda>e. fst e \<noteq> OpPersist) (new_calls w (snd (IndexAll E w)))"
proof -
  have "list_all (\<lambda>e. indexer_call (fst e)) cs \<Longrightarrow> list_all (\<lambda>e. fst e \<noteq> OpPersist) cs"
    for cs :: "(op \<times> bool) list"
    by (induction cs) auto
  with steps_IndexAll [of w E] show ?thesis by (simp add: steps_def)
qed

subsection \<open>A file that yields no chunk\<close>

text \<open>
  C2. Referential integrity is lost when a file that was indexed is indexed again and
  yields no chunk. The store holds \<open>a.txt\<close> with its chunk \<open>a.txt#1\<close>; the file is now
  empty, with a new hash. \<open>IndexFile\<close> deletes the chunks of the file and returns 0 with
  no error, without touching the document: the document of \<open>a.txt\<close> still lists
  \<open>a.txt#1\<close>, which no longer exists. The same holds after \<open>IndexAll\<close>, which counts the
  file as indexed.
\<close>

theorem IndexFile_zero_chunks_breaks_refs:
  "chunk_refs_ok one_file_world \<and>
   fst (IndexFile (demo_env [demo_file ''a.txt'' ''h2'' []] never first_key)
          (demo_file ''a.txt'' ''h2'' []) one_file_world) = Inr 0 \<and>
   chunks (snd (IndexFile (demo_env [demo_file ''a.txt'' ''h2'' []] never first_key)
          (demo_file ''a.txt'' ''h2'' []) one_file_world)) = [] \<and>
   documents (snd (IndexFile (demo_env [demo_file ''a.txt'' ''h2'' []] never first_key)
          (demo_file ''a.txt'' ''h2'' []) one_file_world)) =
     [(''a.txt'', demo_doc ''a.txt'' ''h1'')] \<and>
   \<not> chunk_refs_ok (snd (IndexFile (demo_env [demo_file ''a.txt'' ''h2'' []] never first_key)
          (demo_file ''a.txt'' ''h2'' []) one_file_world)) \<and>
   fst (IndexAll (demo_env [demo_file ''a.txt'' ''h2'' []] never first_key) one_file_world) =
     Inr \<lparr>FilesIndexed = 1, FilesSkipped = 0, ChunksCreated = 0, FilesRemoved = 0,
          Duration = 3\<rparr> \<and>
   \<not> chunk_refs_ok
       (snd (IndexAll (demo_env [demo_file ''a.txt'' ''h2'' []] never first_key) one_file_world))"
  by (simp add: IndexAll_def IndexFile_def store_defs demo_defs Let_def chunk_refs_ok_def)

subsection \<open>Best effort per file\<close>

lemma saved_chunks_simps [simp]:
  "saved_chunks [] = 0"
  "saved_chunks (c # cs) = saved_by c + saved_chunks cs"
  "saved_chunks (a @ b) = saved_chunks a + saved_chunks b"
  by (simp_all add: saved_chunks_def)

lemma failures_simps [simp]:
  "failures [] = 0"
  "failures (l # ls) = (if failed_to_index l then 1 else 0) + failures ls"
  "failures (a @ b) = failures a + failures b"
  by (simp_all add: failures_def)

lemma range_order_step:
  "ks \<noteq> [] \<Longrightarrow>
   range_order pk (Suc n) ks =
     ks ! (pk ks mod length ks) # range_order pk n (removeAll (ks ! (pk ks mod length ks)) ks)"
  by (simp add: Let_def)

lemma range_order_perm:
  "distinct ks \<Longrightarrow> length ks \<le> n \<Longrightarrow>
   set (range_order pk n ks) = set ks \<and> distinct (range_order pk n ks)"
proof (induction n arbitrary: ks)
  case 0
  then show ?case by simp
next
  case (Suc n)
  show ?case
  proof (cases "ks = []")
    case True
    then show ?thesis by simp
  next
    case False
    define k where "k = ks ! (pk ks mod length ks)"
    from False have kin: "k \<in> set ks" by (simp add: k_def)
    have d: "distinct (removeAll k ks)" using Suc.prems(1) by (simp add: distinct_removeAll)
    have "length (removeAll k ks) < length ks"
      using kin by (simp add: length_removeAll_less)
    with Suc.prems(2) have l: "length (removeAll k ks) \<le> n" by simp
    have step: "range_order pk (Suc n) ks = k # range_order pk n (removeAll k ks)"
      unfolding k_def using False by (rule range_order_step)
    from Suc.IH [OF d l] have
      s: "set (range_order pk n (removeAll k ks)) = set ks - {k}" and
      ds: "distinct (range_order pk n (removeAll k ks))"
      by simp_all
    from kin have "insert k (set ks - {k}) = set ks" by blast
    with s ds show ?thesis unfolding step by simp
  qed
qed


lemma IndexFile_effect':
  "\<exists>cs. calls (snd (IndexFile E f w)) = calls w @ cs \<and>
        logged (snd (IndexFile E f w)) = logged w \<and>
        saved_chunks cs = (case fst (IndexFile E f w) of Inl e \<Rightarrow> 0 | Inr n \<Rightarrow> n)"
  by (simp add: IndexFile_def store_defs Let_def)

lemma IndexFile_effect:
  "IndexFile E f w = (r, w') \<Longrightarrow>
   \<exists>cs. calls w' = calls w @ cs \<and> logged w' = logged w \<and>
        saved_chunks cs = (case r of Inl e \<Rightarrow> 0 | Inr n \<Rightarrow> n)"
  using IndexFile_effect' [of E f w] by simp

lemma RemoveFile_effect:
  "\<exists>cs. calls (snd (RemoveFile E p w)) =
          calls w @ (OpDeleteByFile p, \<not> fails E (length (calls w)) (OpDeleteByFile p)) # cs \<and>
        logged (snd (RemoveFile E p w)) = logged w \<and> saved_chunks cs = 0"
  by (simp add: RemoveFile_def store_defs Let_def)

lemma GetDocument_effect:
  "calls (snd (GetDocument E p w)) =
      calls w @ [(OpGetDocument p, \<not> fails E (length (calls w)) (OpGetDocument p))] \<and>
   logged (snd (GetDocument E p w)) = logged w"
  by (simp add: store_defs Let_def)


lemma index_loop_counts:
  "index_loop E files stats ex w = (Inr (stats', ex'), w') \<Longrightarrow>
   \<exists>cs ls. calls w' = calls w @ cs \<and> logged w' = logged w @ ls \<and>
     FilesIndexed stats' + failures ls \<le> FilesIndexed stats + length files \<and>
     ChunksCreated stats' = ChunksCreated stats + saved_chunks cs \<and>
     FilesRemoved stats' = FilesRemoved stats \<and> FilesSkipped stats' = FilesSkipped stats \<and>
     set ex - File_Path ` set files \<subseteq> set ex' \<and> set ex' \<subseteq> set ex \<and>
     (distinct ex \<longrightarrow> distinct ex')"
proof (induction files arbitrary: stats ex w)
  case Nil
  then show ?case by simp
next
  case (Cons f files)
  obtain r1 w1 where g: "GetDocument E (File_Path f) w = (r1, w1)" by fastforce
  from GetDocument_effect [of E "File_Path f" w] g obtain b where
    c1: "calls w1 = calls w @ [(OpGetDocument (File_Path f), b)]" and l1: "logged w1 = logged w"
    by auto
  have sg: "saved_by (OpGetDocument (File_Path f), b) = 0" by simp
  from Cons.prems g obtain doc where r1: "r1 = Inr doc" by (cases r1) auto
  show ?case
  proof (cases "unchanged doc f")
    case True
    with Cons.prems g r1
    have "index_loop E files stats (removeAll (File_Path f) ex) w1 = (Inr (stats', ex'), w')"
      by simp
    from Cons.IH [OF this] obtain cs ls where
      "calls w' = calls w1 @ cs" "logged w' = logged w1 @ ls"
      "FilesIndexed stats' + failures ls \<le> FilesIndexed stats + length files"
      "ChunksCreated stats' = ChunksCreated stats + saved_chunks cs"
      "FilesRemoved stats' = FilesRemoved stats" "FilesSkipped stats' = FilesSkipped stats"
      "set (removeAll (File_Path f) ex) - File_Path ` set files \<subseteq> set ex'"
      "set ex' \<subseteq> set (removeAll (File_Path f) ex)"
      "distinct (removeAll (File_Path f) ex) \<longrightarrow> distinct ex'"
      by blast
    with c1 l1 sg show ?thesis
      apply (intro exI [of _ "(OpGetDocument (File_Path f), b) # cs"] exI [of _ "ls"])
      apply (simp add: distinct_removeAll)
      apply blast
      done
  next
    case False
    obtain r2 w2 where i: "IndexFile E f w1 = (r2, w2)" by fastforce
    from IndexFile_effect [OF i] obtain cs2 where
      c2: "calls w2 = calls w1 @ cs2" and l2: "logged w2 = logged w1" and
      s2: "saved_chunks cs2 = (case r2 of Inl e \<Rightarrow> 0 | Inr n \<Rightarrow> n)"
      by blast
    show ?thesis
    proof (cases r2)
      case (Inl err)
      with Cons.prems g r1 False i
      have "index_loop E files stats ex
              (w2\<lparr>logged := logged w2 @ [FailedToIndex (File_Path f) err]\<rparr>) =
            (Inr (stats', ex'), w')"
        by simp
      from Cons.IH [OF this] obtain cs ls where
        "calls w' = calls w2 @ cs" "logged w' = (logged w2 @ [FailedToIndex (File_Path f) err]) @ ls"
        "FilesIndexed stats' + failures ls \<le> FilesIndexed stats + length files"
        "ChunksCreated stats' = ChunksCreated stats + saved_chunks cs"
        "FilesRemoved stats' = FilesRemoved stats" "FilesSkipped stats' = FilesSkipped stats"
        "set ex - File_Path ` set files \<subseteq> set ex'" "set ex' \<subseteq> set ex"
        "distinct ex \<longrightarrow> distinct ex'"
        by auto
      with c1 l1 c2 l2 s2 sg Inl show ?thesis
        apply (intro exI [of _ "[(OpGetDocument (File_Path f), b)] @ cs2 @ cs"]
                     exI [of _ "[FailedToIndex (File_Path f) err] @ ls"])
        apply (simp add: distinct_removeAll)
        apply blast
        done
    next
      case (Inr n)
      with Cons.prems g r1 False i
      have "index_loop E files
              (stats\<lparr>FilesIndexed := FilesIndexed stats + 1,
                     ChunksCreated := ChunksCreated stats + n\<rparr>)
              (removeAll (File_Path f) ex) w2 =
            (Inr (stats', ex'), w')"
        by simp
      from Cons.IH [OF this] obtain cs ls where
        "calls w' = calls w2 @ cs" "logged w' = logged w2 @ ls"
        "FilesIndexed stats' + failures ls \<le> FilesIndexed stats + 1 + length files"
        "ChunksCreated stats' = ChunksCreated stats + n + saved_chunks cs"
        "FilesRemoved stats' = FilesRemoved stats" "FilesSkipped stats' = FilesSkipped stats"
        "set (removeAll (File_Path f) ex) - File_Path ` set files \<subseteq> set ex'"
        "set ex' \<subseteq> set (removeAll (File_Path f) ex)"
        "distinct (removeAll (File_Path f) ex) \<longrightarrow> distinct ex'"
        by auto
      with c1 l1 c2 l2 s2 sg Inr show ?thesis
        apply (intro exI [of _ "[(OpGetDocument (File_Path f), b)] @ cs2 @ cs"]
                     exI [of _ "ls"])
        apply (simp add: distinct_removeAll)
        apply blast
        done
    qed
  qed
qed



lemma remove_loop_counts:
  "remove_loop E ps stats w = (stats', w') \<Longrightarrow>
   \<exists>cs ls. calls w' = calls w @ cs \<and> logged w' = logged w @ ls \<and>
     failures ls = 0 \<and> saved_chunks cs = 0 \<and>
     FilesIndexed stats' = FilesIndexed stats \<and> ChunksCreated stats' = ChunksCreated stats \<and>
     FilesSkipped stats' = FilesSkipped stats \<and>
     OpDeleteByFile ` set ps \<subseteq> fst ` set cs"
proof (induction ps arbitrary: stats w)
  case Nil
  then show ?case by simp
next
  case (Cons p ps)
  obtain r1 w1 where r: "RemoveFile E p w = (r1, w1)" by fastforce
  from RemoveFile_effect [of E p w] r obtain b cs1 where
    c1: "calls w1 = calls w @ (OpDeleteByFile p, b) # cs1" and l1: "logged w1 = logged w" and
    s1: "saved_chunks cs1 = 0"
    by auto
  show ?case
  proof (cases r1)
    case (Inl err)
    with Cons.prems r
    have "remove_loop E ps stats (w1\<lparr>logged := logged w1 @ [FailedToRemove p err]\<rparr>) =
            (stats', w')"
      by simp
    from Cons.IH [OF this] obtain cs ls where
      "calls w' = calls w1 @ cs" "logged w' = (logged w1 @ [FailedToRemove p err]) @ ls"
      "failures ls = 0" "saved_chunks cs = 0"
      "FilesIndexed stats' = FilesIndexed stats" "ChunksCreated stats' = ChunksCreated stats"
      "FilesSkipped stats' = FilesSkipped stats" "OpDeleteByFile ` set ps \<subseteq> fst ` set cs"
      by auto
    with c1 l1 s1 show ?thesis
      apply (intro exI [of _ "((OpDeleteByFile p, b) # cs1) @ cs"]
                   exI [of _ "[FailedToRemove p err] @ ls"])
      apply (simp add: distinct_removeAll)
      apply blast
      done
  next
    case (Inr u)
    with Cons.prems r
    have "remove_loop E ps (stats\<lparr>FilesRemoved := FilesRemoved stats + 1\<rparr>) w1 = (stats', w')"
      by simp
    from Cons.IH [OF this] obtain cs ls where
      "calls w' = calls w1 @ cs" "logged w' = logged w1 @ ls"
      "failures ls = 0" "saved_chunks cs = 0"
      "FilesIndexed stats' = FilesIndexed stats" "ChunksCreated stats' = ChunksCreated stats"
      "FilesSkipped stats' = FilesSkipped stats" "OpDeleteByFile ` set ps \<subseteq> fst ` set cs"
      by auto
    with c1 l1 s1 show ?thesis
      apply (intro exI [of _ "((OpDeleteByFile p, b) # cs1) @ cs"] exI [of _ "ls"])
      apply (simp add: distinct_removeAll)
      apply blast
      done
  qed
qed



lemma new_calls_append: "calls w' = calls w @ cs \<Longrightarrow> new_calls w w' = cs"
  by (simp add: new_calls_def)

lemma new_logged_append: "logged w' = logged w @ ls \<Longrightarrow> new_logged w w' = ls"
  by (simp add: new_logged_def)




lemmas demo_defs2 = demo_defs embed_fails_on_def delete_fails_on_def two_file_world_def



subsection \<open>Runs in which no call fails\<close>

lemma DeleteByFile_ok:
  "\<forall>n c. \<not> fails E n c \<Longrightarrow>
   DeleteByFile E p w =
     (Inr (), w\<lparr>calls := calls w @ [(OpDeleteByFile p, True)],
               chunks := filter (\<lambda>kc. Chunk_FilePath (snd kc) \<noteq> p) (chunks w)\<rparr>)"
  by (simp add: store_defs)

lemma DeleteDocument_ok:
  "\<forall>n c. \<not> fails E n c \<Longrightarrow>
   DeleteDocument E p w =
     (Inr (), w\<lparr>calls := calls w @ [(OpDeleteDocument p, True)],
               documents := AList.delete p (documents w)\<rparr>)"
  by (simp add: store_defs)

lemma GetDocument_ok:
  "\<forall>n c. \<not> fails E n c \<Longrightarrow>
   GetDocument E p w =
     (Inr (map_of (documents w) p), w\<lparr>calls := calls w @ [(OpGetDocument p, True)]\<rparr>)"
  by (simp add: store_defs)

lemma RemoveFile_ok:
  "\<forall>n c. \<not> fails E n c \<Longrightarrow>
   RemoveFile E p w =
     (Inr (), w\<lparr>calls := calls w @ [(OpDeleteByFile p, True), (OpDeleteDocument p, True)],
               chunks := filter (\<lambda>kc. Chunk_FilePath (snd kc) \<noteq> p) (chunks w),
               documents := AList.delete p (documents w)\<rparr>)"
  by (simp add: RemoveFile_def DeleteByFile_ok DeleteDocument_ok)

lemma delete_as_filter: "AList.delete p al = filter (\<lambda>kd. fst kd \<noteq> p) al"
  by (induction al) auto

lemma remove_loop_ok:
  "\<forall>n c. \<not> fails E n c \<Longrightarrow>
   remove_loop E ps stats w =
     (stats\<lparr>FilesRemoved := FilesRemoved stats + length ps\<rparr>,
      w\<lparr>calls := calls w @
           concat (map (\<lambda>p. [(OpDeleteByFile p, True), (OpDeleteDocument p, True)]) ps),
        chunks := filter (\<lambda>kc. Chunk_FilePath (snd kc) \<notin> set ps) (chunks w),
        documents := filter (\<lambda>kd. fst kd \<notin> set ps) (documents w)\<rparr>)"
proof (induction ps arbitrary: stats w)
  case Nil
  show ?case by simp
next
  case (Cons p ps)
  have f1: "filter (\<lambda>kc. Chunk_FilePath (snd kc) \<notin> set ps)
              (filter (\<lambda>kc. Chunk_FilePath (snd kc) \<noteq> p) xs) =
            filter (\<lambda>kc. Chunk_FilePath (snd kc) \<notin> set (p # ps)) xs" for xs :: "(string \<times> 'a Chunk) list"
    by (induction xs) auto
  have f2: "filter (\<lambda>kd. fst kd \<notin> set ps) (filter (\<lambda>kd. fst kd \<noteq> p) xs) =
            filter (\<lambda>kd. fst kd \<notin> set (p # ps)) xs" for xs :: "(string \<times> Document) list"
    by (induction xs) auto
  show ?case
    by (simp only: remove_loop.simps RemoveFile_ok [OF Cons.prems] Cons.IH [OF Cons.prems]
          prod.case sum.case delete_as_filter)
       (simp add: f1 f2)
qed

lemma IndexFile_ok:
  "\<forall>n c. \<not> fails E n c \<Longrightarrow>
   IndexFile E f w =
     (let infos = ChunkWithContext E (File_Path f) (File_Content f);
          kept = filter (\<lambda>kc. Chunk_FilePath (snd kc) \<noteq> File_Path f) (chunks w)
      in if infos = []
         then (Inr 0, w\<lparr>calls := calls w @ [(OpDeleteByFile (File_Path f), True)],
                       chunks := kept\<rparr>)
         else
           (let doc = \<lparr>Doc_Path = File_Path f, Doc_Hash = File_Hash f,
                       Doc_ModTime = File_ModTime f, Doc_ChunkIDs = map Info_ID infos\<rparr>;
                cs = map (store_chunk (now E (length (calls w) + 2)))
                       (zip infos (map (embed E) (map Info_Content infos)))
            in (Inr (length infos),
                w\<lparr>calls := calls w @
                     [(OpDeleteByFile (File_Path f), True),
                      (OpEmbedBatch (map Info_Content infos), True),
                      (OpSaveChunks (map Chunk_ID cs), True), (OpSaveDocument doc, True)],
                  chunks := fold (\<lambda>c al. AList.update (Chunk_ID c) c al) cs kept,
                  documents := AList.update (File_Path f) doc (documents w)\<rparr>)))"
  by (simp add: IndexFile_def store_defs Let_def)

lemma IndexFile_ok_result:
  assumes "\<forall>n c. \<not> fails E n c"
  obtains n w' where "IndexFile E f w = (Inr n, w')"
    "fst ` set (documents w) \<subseteq> fst ` set (documents w')"
    "fst ` set (documents w') \<subseteq> insert (File_Path f) (fst ` set (documents w))"
proof -
  have "\<exists>n. fst (IndexFile E f w) = Inr n"
    by (simp add: IndexFile_ok [OF assms] Let_def)
  then obtain n where n: "fst (IndexFile E f w) = Inr n" ..
  have k1: "fst ` set (documents w) \<subseteq> fst ` set (documents (snd (IndexFile E f w)))"
    by (auto simp: IndexFile_ok [OF assms] Let_def dom_update)
  have k2: "fst ` set (documents (snd (IndexFile E f w))) \<subseteq>
            insert (File_Path f) (fst ` set (documents w))"
    by (auto simp: IndexFile_ok [OF assms] Let_def dom_update)
  from n have "IndexFile E f w = (Inr n, snd (IndexFile E f w))"
    by (metis prod.collapse)
  with k1 k2 that show thesis by blast
qed

lemma filter_removeAll_paths:
  "filter (\<lambda>k. k \<notin> A) (removeAll p ex) = filter (\<lambda>k. k \<notin> insert p A) ex"
  by (induction ex) auto

lemma index_loop_ok:
  assumes nofail: "\<forall>n c. \<not> fails E n c"
  shows "\<exists>stats' w'.
     index_loop E files stats ex w =
       (Inr (stats', filter (\<lambda>k. k \<notin> File_Path ` set files) ex), w') \<and>
     fst ` set (documents w) \<subseteq> fst ` set (documents w') \<and>
     fst ` set (documents w') \<subseteq> fst ` set (documents w) \<union> File_Path ` set files"
proof (induction files arbitrary: stats ex w)
  case Nil
  show ?case by simp
next
  case (Cons f files)
  let ?p = "File_Path f"
  let ?w1 = "w\<lparr>calls := calls w @ [(OpGetDocument ?p, True)]\<rparr>"
  note g = GetDocument_ok [OF nofail, of ?p w]
  show ?case
  proof (cases "unchanged (map_of (documents w) ?p) f")
    case True
    from Cons.IH [of stats "removeAll ?p ex" ?w1] obtain stats' w' where
      r: "index_loop E files stats (removeAll ?p ex) ?w1 =
            (Inr (stats', filter (\<lambda>k. k \<notin> File_Path ` set files) (removeAll ?p ex)), w')" and
      k1: "fst ` set (documents ?w1) \<subseteq> fst ` set (documents w')" and
      k2: "fst ` set (documents w') \<subseteq> fst ` set (documents ?w1) \<union> File_Path ` set files"
      by blast
    have "index_loop E (f # files) stats ex w =
            (Inr (stats', filter (\<lambda>k. k \<notin> File_Path ` set (f # files)) ex), w')"
      using True r by (simp add: g filter_removeAll_paths)
    moreover from k1 have "fst ` set (documents w) \<subseteq> fst ` set (documents w')" by simp
    moreover from k2 have
      "fst ` set (documents w') \<subseteq> fst ` set (documents w) \<union> File_Path ` set (f # files)"
      by auto
    ultimately show ?thesis by blast
  next
    case False
    from IndexFile_ok_result [OF nofail, of f ?w1] obtain n w2 where
      i: "IndexFile E f ?w1 = (Inr n, w2)" and
      j1: "fst ` set (documents ?w1) \<subseteq> fst ` set (documents w2)" and
      j2: "fst ` set (documents w2) \<subseteq> insert ?p (fst ` set (documents ?w1))"
      by blast
    let ?stats = "stats\<lparr>FilesIndexed := FilesIndexed stats + 1,
                          ChunksCreated := ChunksCreated stats + n\<rparr>"
    from Cons.IH [of ?stats "removeAll ?p ex" w2] obtain stats' w' where
      r: "index_loop E files ?stats (removeAll ?p ex) w2 =
            (Inr (stats', filter (\<lambda>k. k \<notin> File_Path ` set files) (removeAll ?p ex)), w')" and
      k1: "fst ` set (documents w2) \<subseteq> fst ` set (documents w')" and
      k2: "fst ` set (documents w') \<subseteq> fst ` set (documents w2) \<union> File_Path ` set files"
      by blast
    have "index_loop E (f # files) stats ex w =
            (Inr (stats', filter (\<lambda>k. k \<notin> File_Path ` set (f # files)) ex), w')"
      using False i r by (simp add: g filter_removeAll_paths)
    moreover from j1 k1 have "fst ` set (documents w) \<subseteq> fst ` set (documents w')" by simp
    moreover from j2 k2 have
      "fst ` set (documents w') \<subseteq> fst ` set (documents w) \<union> File_Path ` set (f # files)"
      by simp blast
    ultimately show ?thesis by blast
  qed
qed

lemma range_order_length:
  "distinct ks \<Longrightarrow> length (range_order pk (length ks) ks) = length ks"
proof -
  assume d: "distinct ks"
  from range_order_perm [OF d, of "length ks" pk] have
    "set (range_order pk (length ks) ks) = set ks" "distinct (range_order pk (length ks) ks)"
    by simp_all
  then have "card (set ks) = length (range_order pk (length ks) ks)"
    by (metis distinct_card)
  with d show ?thesis by (simp add: distinct_card)
qed

subsection \<open>Removal under failures\<close>

lemma removal_failures_simps [simp]:
  "removal_failures [] = 0"
  "removal_failures (l # ls) = (if failed_to_remove l then 1 else 0) + removal_failures ls"
  "removal_failures (a @ b) = removal_failures a + removal_failures b"
  by (simp_all add: removal_failures_def)

lemma removal_failures_Skipped: "removal_failures (map Skipped xs) = 0"
  by (induction xs) simp_all

lemma RemoveFile_cases:
  "RemoveFile E p w =
     (if fails E (length (calls w)) (OpDeleteByFile p)
      then (Inl (Wrapped ''failed to delete chunks'' StoreError),
            w\<lparr>calls := calls w @ [(OpDeleteByFile p, False)]\<rparr>)
      else if fails E (Suc (length (calls w))) (OpDeleteDocument p)
      then (Inl (Wrapped ''failed to delete document'' StoreError),
            w\<lparr>calls := calls w @ [(OpDeleteByFile p, True), (OpDeleteDocument p, False)],
              chunks := filter (\<lambda>kc. Chunk_FilePath (snd kc) \<noteq> p) (chunks w)\<rparr>)
      else (Inr (),
            w\<lparr>calls := calls w @ [(OpDeleteByFile p, True), (OpDeleteDocument p, True)],
              chunks := filter (\<lambda>kc. Chunk_FilePath (snd kc) \<noteq> p) (chunks w),
              documents := AList.delete p (documents w)\<rparr>))"
  by (simp add: RemoveFile_def store_defs)

lemma RemoveFile_outcome:
  assumes "RemoveFile E p w = (r, w1)"
  shows "\<exists>cs. calls w1 = calls w @ cs \<and> logged w1 = logged w \<and>
     (\<forall>q. q \<noteq> p \<longrightarrow> OpDeleteDocument q \<notin> fst ` set cs) \<and>
     length (filter deleted_document cs) = (if isl r then 0 else 1) \<and>
     (\<forall>q. map_of (documents w) q = None \<longrightarrow> map_of (documents w1) q = None) \<and>
     (\<forall>q. q \<noteq> p \<longrightarrow> map_of (documents w1) q = map_of (documents w) q) \<and>
     (\<forall>q. filter (\<lambda>kc. Chunk_FilePath (snd kc) = q) (chunks w) = [] \<longrightarrow>
          filter (\<lambda>kc. Chunk_FilePath (snd kc) = q) (chunks w1) = []) \<and>
     (\<not> isl r \<longrightarrow>
        (OpDeleteByFile p, True) \<in> set cs \<and> (OpDeleteDocument p, True) \<in> set cs \<and>
        map_of (documents w1) p = None \<and>
        filter (\<lambda>kc. Chunk_FilePath (snd kc) = p) (chunks w1) = [])"
proof -
  let ?k1 = "fails E (length (calls w)) (OpDeleteByFile p)"
  let ?k2 = "fails E (Suc (length (calls w))) (OpDeleteDocument p)"
  consider (a) ?k1 | (b) "\<not> ?k1" ?k2 | (c) "\<not> ?k1" "\<not> ?k2" by blast
  then show ?thesis
  proof cases
    case a
    with assms have "r = Inl (Wrapped ''failed to delete chunks'' StoreError)"
      "w1 = w\<lparr>calls := calls w @ [(OpDeleteByFile p, False)]\<rparr>"
      by (simp_all add: RemoveFile_cases)
    then show ?thesis
      by (intro exI [of _ "[(OpDeleteByFile p, False)]"]) simp
  next
    case b
    with assms have "r = Inl (Wrapped ''failed to delete document'' StoreError)"
      "w1 = w\<lparr>calls := calls w @ [(OpDeleteByFile p, True), (OpDeleteDocument p, False)],
              chunks := filter (\<lambda>kc. Chunk_FilePath (snd kc) \<noteq> p) (chunks w)\<rparr>"
      by (simp_all add: RemoveFile_cases)
    then show ?thesis
      by (intro exI [of _ "[(OpDeleteByFile p, True), (OpDeleteDocument p, False)]"])
         (auto simp: filter_empty_conv)
  next
    case c
    with assms have "r = Inr ()"
      "w1 = w\<lparr>calls := calls w @ [(OpDeleteByFile p, True), (OpDeleteDocument p, True)],
              chunks := filter (\<lambda>kc. Chunk_FilePath (snd kc) \<noteq> p) (chunks w),
              documents := AList.delete p (documents w)\<rparr>"
      by (simp_all add: RemoveFile_cases)
    then show ?thesis
      by (intro exI [of _ "[(OpDeleteByFile p, True), (OpDeleteDocument p, True)]"])
         (auto simp: filter_empty_conv delete_conv')
  qed
qed

lemma remove_loop_outcome:
  "remove_loop E ps stats w = (stats', w') \<Longrightarrow>
   \<exists>cs ls. calls w' = calls w @ cs \<and> logged w' = logged w @ ls \<and>
     FilesRemoved stats' = FilesRemoved stats + length (filter deleted_document cs) \<and>
     FilesRemoved stats' + removal_failures ls = FilesRemoved stats + length ps \<and>
     (\<forall>q. q \<notin> set ps \<longrightarrow>
        OpDeleteDocument q \<notin> fst ` set cs \<and>
        map_of (documents w') q = map_of (documents w) q) \<and>
     (\<forall>q. map_of (documents w) q = None \<longrightarrow> map_of (documents w') q = None) \<and>
     (\<forall>q. filter (\<lambda>kc. Chunk_FilePath (snd kc) = q) (chunks w) = [] \<longrightarrow>
          filter (\<lambda>kc. Chunk_FilePath (snd kc) = q) (chunks w') = []) \<and>
     (\<forall>q \<in> set ps.
        (\<exists>err. FailedToRemove q err \<in> set ls) \<or>
        ((OpDeleteByFile q, True) \<in> set cs \<and> (OpDeleteDocument q, True) \<in> set cs \<and>
         map_of (documents w') q = None \<and>
         filter (\<lambda>kc. Chunk_FilePath (snd kc) = q) (chunks w') = []))"
proof (induction ps arbitrary: stats w)
  case Nil
  then show ?case by simp
next
  case (Cons p ps)
  define r where "r = fst (RemoveFile E p w)"
  define w1 where "w1 = snd (RemoveFile E p w)"
  have rm: "RemoveFile E p w = (r, w1)" by (simp add: r_def w1_def)
  from RemoveFile_outcome [OF rm] obtain cs1 where
    c1: "calls w1 = calls w @ cs1" and l1: "logged w1 = logged w" and
    nd1: "\<forall>q. q \<noteq> p \<longrightarrow> OpDeleteDocument q \<notin> fst ` set cs1" and
    n1: "length (filter deleted_document cs1) = (if isl r then 0 else 1)" and
    m1: "\<forall>q. map_of (documents w) q = None \<longrightarrow> map_of (documents w1) q = None" and
    k1: "\<forall>q. q \<noteq> p \<longrightarrow> map_of (documents w1) q = map_of (documents w) q" and
    h1: "\<forall>q. filter (\<lambda>kc. Chunk_FilePath (snd kc) = q) (chunks w) = [] \<longrightarrow>
             filter (\<lambda>kc. Chunk_FilePath (snd kc) = q) (chunks w1) = []" and
    g1: "\<not> isl r \<longrightarrow>
           (OpDeleteByFile p, True) \<in> set cs1 \<and> (OpDeleteDocument p, True) \<in> set cs1 \<and>
           map_of (documents w1) p = None \<and>
           filter (\<lambda>kc. Chunk_FilePath (snd kc) = p) (chunks w1) = []"
    by (elim exE conjE)
  define l0 where "l0 = (case r of Inl err \<Rightarrow> [FailedToRemove p err] | Inr u \<Rightarrow> [])"
  define wx where "wx = w1\<lparr>logged := logged w1 @ l0\<rparr>"
  define sx where
    "sx = (if isl r then stats else stats\<lparr>FilesRemoved := FilesRemoved stats + 1\<rparr>)"
  have e: "remove_loop E (p # ps) stats w = remove_loop E ps sx wx"
    by (cases r) (simp_all add: rm l0_def wx_def sx_def)
  from Cons.prems e have "remove_loop E ps sx wx = (stats', w')" by simp
  from Cons.IH [OF this] obtain cs2 ls2 where
    c2: "calls w' = calls wx @ cs2" and l2: "logged w' = logged wx @ ls2" and
    f2: "FilesRemoved stats' = FilesRemoved sx + length (filter deleted_document cs2)" and
    t2: "FilesRemoved stats' + removal_failures ls2 = FilesRemoved sx + length ps" and
    nd2: "\<forall>q. q \<notin> set ps \<longrightarrow>
            OpDeleteDocument q \<notin> fst ` set cs2 \<and>
            map_of (documents w') q = map_of (documents wx) q" and
    m2: "\<forall>q. map_of (documents wx) q = None \<longrightarrow> map_of (documents w') q = None" and
    h2: "\<forall>q. filter (\<lambda>kc. Chunk_FilePath (snd kc) = q) (chunks wx) = [] \<longrightarrow>
             filter (\<lambda>kc. Chunk_FilePath (snd kc) = q) (chunks w') = []" and
    g2: "\<forall>q \<in> set ps.
        (\<exists>err. FailedToRemove q err \<in> set ls2) \<or>
        ((OpDeleteByFile q, True) \<in> set cs2 \<and> (OpDeleteDocument q, True) \<in> set cs2 \<and>
         map_of (documents w') q = None \<and>
         filter (\<lambda>kc. Chunk_FilePath (snd kc) = q) (chunks w') = [])"
    by (elim exE conjE)
  have dx: "documents wx = documents w1" and cx: "chunks wx = chunks w1"
    by (simp_all add: wx_def)
  have A: "calls w' = calls w @ (cs1 @ cs2)" using c1 c2 by (simp add: wx_def)
  have B: "logged w' = logged w @ (l0 @ ls2)" using l1 l2 by (simp add: wx_def)
  have C: "FilesRemoved stats' =
      FilesRemoved stats + length (filter deleted_document (cs1 @ cs2))"
    using f2 n1 by (simp add: sx_def)
  have rf: "removal_failures l0 = (if isl r then 1 else 0)"
    by (cases r) (simp_all add: l0_def)
  have D: "FilesRemoved stats' + removal_failures (l0 @ ls2) =
      FilesRemoved stats + length (p # ps)"
    using t2 rf by (simp add: sx_def)
  have E: "\<forall>q. q \<notin> set (p # ps) \<longrightarrow>
        OpDeleteDocument q \<notin> fst ` set (cs1 @ cs2) \<and>
        map_of (documents w') q = map_of (documents w) q"
  proof (intro allI impI)
    fix q assume "q \<notin> set (p # ps)"
    then have qp: "q \<noteq> p" and qps: "q \<notin> set ps" by simp_all
    from nd1 qp have "OpDeleteDocument q \<notin> fst ` set cs1" by simp
    moreover from nd2 qps have "OpDeleteDocument q \<notin> fst ` set cs2"
      "map_of (documents w') q = map_of (documents wx) q" by simp_all
    moreover from k1 qp have "map_of (documents w1) q = map_of (documents w) q" by simp
    ultimately show "OpDeleteDocument q \<notin> fst ` set (cs1 @ cs2) \<and>
        map_of (documents w') q = map_of (documents w) q"
      by (simp add: dx image_Un)
  qed
  have F: "\<forall>q. map_of (documents w) q = None \<longrightarrow> map_of (documents w') q = None"
    using m1 m2 by (simp add: dx)
  have G: "\<forall>q. filter (\<lambda>kc. Chunk_FilePath (snd kc) = q) (chunks w) = [] \<longrightarrow>
          filter (\<lambda>kc. Chunk_FilePath (snd kc) = q) (chunks w') = []"
    using h1 h2 by (simp add: cx)
  have H: "\<forall>q \<in> set (p # ps).
        (\<exists>err. FailedToRemove q err \<in> set (l0 @ ls2)) \<or>
        ((OpDeleteByFile q, True) \<in> set (cs1 @ cs2) \<and>
         (OpDeleteDocument q, True) \<in> set (cs1 @ cs2) \<and>
         map_of (documents w') q = None \<and>
         filter (\<lambda>kc. Chunk_FilePath (snd kc) = q) (chunks w') = [])"
  proof
    fix q assume "q \<in> set (p # ps)"
    then consider (here) "q = p" "isl r" | (gone) "q = p" "\<not> isl r" | (later) "q \<in> set ps"
      by auto
    then show "(\<exists>err. FailedToRemove q err \<in> set (l0 @ ls2)) \<or>
        ((OpDeleteByFile q, True) \<in> set (cs1 @ cs2) \<and>
         (OpDeleteDocument q, True) \<in> set (cs1 @ cs2) \<and>
         map_of (documents w') q = None \<and>
         filter (\<lambda>kc. Chunk_FilePath (snd kc) = q) (chunks w') = [])"
    proof cases
      case here
      then have "FailedToRemove q (projl r) \<in> set (l0 @ ls2)"
        by (cases r) (simp_all add: l0_def)
      then show ?thesis by (intro disjI1 exI)
    next
      case gone
      with g1 have a: "(OpDeleteByFile p, True) \<in> set cs1" "(OpDeleteDocument p, True) \<in> set cs1"
        "map_of (documents w1) p = None"
        "filter (\<lambda>kc. Chunk_FilePath (snd kc) = p) (chunks w1) = []"
        by simp_all
      from a(3) m2 have "map_of (documents w') p = None" by (simp add: dx)
      moreover from a(4) h2 have "filter (\<lambda>kc. Chunk_FilePath (snd kc) = p) (chunks w') = []"
        by (simp add: cx)
      ultimately show ?thesis using a(1,2) gone(1) by simp
    next
      case later
      from bspec [OF g2 later] show ?thesis
      proof
        assume "\<exists>err. FailedToRemove q err \<in> set ls2"
        then obtain err where "FailedToRemove q err \<in> set ls2" ..
        then have "FailedToRemove q err \<in> set (l0 @ ls2)" by simp
        then show ?thesis by (intro disjI1 exI)
      next
        assume "(OpDeleteByFile q, True) \<in> set cs2 \<and> (OpDeleteDocument q, True) \<in> set cs2 \<and>
          map_of (documents w') q = None \<and>
          filter (\<lambda>kc. Chunk_FilePath (snd kc) = q) (chunks w') = []"
        then show ?thesis by simp
      qed
    qed
  qed
  show ?case
    by (intro exI [of _ "cs1 @ cs2"] exI [of _ "l0 @ ls2"] conjI A B C D E F G H)
qed

lemma IndexFile_keeps_keys:
  "fst ` set (documents w) \<subseteq> fst ` set (documents (snd (IndexFile E f w)))"
  by (auto simp: IndexFile_def store_defs Let_def dom_update)

lemma index_loop_existing:
  "index_loop E files stats ex w = (Inr (stats', ex'), w') \<Longrightarrow>
   \<exists>ls. logged w' = logged w @ ls \<and> removal_failures ls = 0 \<and>
     (\<forall>p \<in> set ex' \<inter> File_Path ` set files. \<exists>err. FailedToIndex p err \<in> set ls) \<and>
     fst ` set (documents w) \<subseteq> fst ` set (documents w')"
proof (induction files arbitrary: stats ex w)
  case Nil
  then show ?case by simp
next
  case (Cons f files)
  let ?p = "File_Path f"
  define g where "g = fst (GetDocument E ?p w)"
  define w1 where "w1 = snd (GetDocument E ?p w)"
  have get: "GetDocument E ?p w = (g, w1)" by (simp add: g_def w1_def)
  have l1: "logged w1 = logged w" unfolding w1_def by (simp add: GetDocument_effect)
  have d1: "documents w1 = documents w" unfolding w1_def by (simp add: store_defs)
  obtain l0 sx exx wx where
    run: "index_loop E files sx exx wx = (Inr (stats', ex'), w')" and
    lx: "logged wx = logged w @ l0" and rf: "removal_failures l0 = 0" and
    kx: "fst ` set (documents w) \<subseteq> fst ` set (documents wx)" and
    px: "?p \<in> set exx \<longrightarrow> (\<exists>err. FailedToIndex ?p err \<in> set l0)"
  proof (cases g)
    case (Inl err)
    with get Cons.prems show ?thesis by simp
  next
    case doc: (Inr doc)
    show ?thesis
    proof (cases "unchanged doc f")
      case True
      with Cons.prems get doc
      have "index_loop E files stats (removeAll ?p ex) w1 = (Inr (stats', ex'), w')" by simp
      then show ?thesis
        by (rule that [of stats "removeAll ?p ex" w1 "[]"]) (simp_all add: l1 d1)
    next
      case False
      define r2 where "r2 = fst (IndexFile E f w1)"
      define w2 where "w2 = snd (IndexFile E f w1)"
      have idx: "IndexFile E f w1 = (r2, w2)" by (simp add: r2_def w2_def)
      from IndexFile_effect [OF idx] have l2: "logged w2 = logged w" unfolding l1 [symmetric]
        by (elim exE conjE)
      from IndexFile_keeps_keys [of w1 E f]
      have k2: "fst ` set (documents w) \<subseteq> fst ` set (documents w2)"
        by (simp add: w2_def d1)
      show ?thesis
      proof (cases r2)
        case err: (Inl err)
        define w2' where "w2' = w2\<lparr>logged := logged w2 @ [FailedToIndex ?p err]\<rparr>"
        from Cons.prems get doc False idx err
        have "index_loop E files stats ex w2' = (Inr (stats', ex'), w')"
          by (simp add: w2'_def)
        then show ?thesis
          by (rule that [of stats ex w2' "[FailedToIndex ?p err]"])
             (use k2 in \<open>simp_all add: w2'_def l2\<close>)
      next
        case n: (Inr n)
        from Cons.prems get doc False idx n
        have "index_loop E files
            (stats\<lparr>FilesIndexed := FilesIndexed stats + 1,
                   ChunksCreated := ChunksCreated stats + n\<rparr>)
            (removeAll ?p ex) w2 = (Inr (stats', ex'), w')"
          by simp
        then show ?thesis
          by (rule that [of _ "removeAll ?p ex" w2 "[]"]) (use k2 in \<open>simp_all add: l2\<close>)
      qed
    qed
  qed
  from Cons.IH [OF run] obtain ls where
    a: "logged w' = logged wx @ ls" and b: "removal_failures ls = 0" and
    c: "\<forall>p \<in> set ex' \<inter> File_Path ` set files. \<exists>err. FailedToIndex p err \<in> set ls" and
    d: "fst ` set (documents wx) \<subseteq> fst ` set (documents w')"
    by (elim exE conjE)
  from index_loop_counts [OF run] have sub: "set ex' \<subseteq> set exx" by (elim exE conjE)
  have A: "logged w' = logged w @ (l0 @ ls)" using a lx by simp
  have B: "removal_failures (l0 @ ls) = 0" using b rf by simp
  have C: "\<forall>p \<in> set ex' \<inter> File_Path ` set (f # files).
             \<exists>err. FailedToIndex p err \<in> set (l0 @ ls)"
  proof
    fix q assume q: "q \<in> set ex' \<inter> File_Path ` set (f # files)"
    then consider (here) "q = ?p" | (later) "q \<in> set ex' \<inter> File_Path ` set files" by auto
    then show "\<exists>err. FailedToIndex q err \<in> set (l0 @ ls)"
    proof cases
      case here
      with q sub have "?p \<in> set exx" by auto
      with px obtain err where "FailedToIndex ?p err \<in> set l0" by auto
      then have "FailedToIndex q err \<in> set (l0 @ ls)" using here by simp
      then show ?thesis ..
    next
      case later
      from bspec [OF c later] obtain err where "FailedToIndex q err \<in> set ls" ..
      then have "FailedToIndex q err \<in> set (l0 @ ls)" by simp
      then show ?thesis ..
    qed
  qed
  from kx d have D: "fst ` set (documents w) \<subseteq> fst ` set (documents w')" by (rule subset_trans)
  show ?case by (intro exI [of _ "l0 @ ls"] conjI A B C D)
qed

lemma index_phase_facts:
  assumes "index_loop E files stats ex w = (Inr (stats', ex'), w')"
  shows "calls w' = calls w @ new_calls w w'"
    and "logged w' = logged w @ new_logged w w'"
    and "list_all (\<lambda>e. index_phase_call (fst e)) (new_calls w w')"
    and "removal_failures (new_logged w w') = 0"
    and "\<forall>p \<in> set ex' \<inter> File_Path ` set files.
           \<exists>err. FailedToIndex p err \<in> set (new_logged w w')"
    and "fst ` set (documents w) \<subseteq> fst ` set (documents w')"
    and "FilesRemoved stats' = FilesRemoved stats"
    and "set ex - File_Path ` set files \<subseteq> set ex'"
    and "set ex' \<subseteq> set ex"
    and "distinct ex \<longrightarrow> distinct ex'"
proof -
  from steps_index_loop [of w E files stats ex] assms
  show "calls w' = calls w @ new_calls w w'"
    "list_all (\<lambda>e. index_phase_call (fst e)) (new_calls w w')"
    by (simp_all add: steps_def)
  from index_loop_existing [OF assms] obtain ls where
    l: "logged w' = logged w @ ls" and r: "removal_failures ls = 0" and
    f: "\<forall>p \<in> set ex' \<inter> File_Path ` set files. \<exists>err. FailedToIndex p err \<in> set ls" and
    k: "fst ` set (documents w) \<subseteq> fst ` set (documents w')"
    by (elim exE conjE)
  from new_logged_append [OF l] have n: "new_logged w w' = ls" .
  show "logged w' = logged w @ new_logged w w'"
    "removal_failures (new_logged w w') = 0"
    "\<forall>p \<in> set ex' \<inter> File_Path ` set files.
       \<exists>err. FailedToIndex p err \<in> set (new_logged w w')"
    "fst ` set (documents w) \<subseteq> fst ` set (documents w')"
    unfolding n by (fact l r f k)+
  from index_loop_counts [OF assms] have
    "FilesRemoved stats' = FilesRemoved stats \<and> set ex - File_Path ` set files \<subseteq> set ex' \<and>
     set ex' \<subseteq> set ex \<and> (distinct ex \<longrightarrow> distinct ex')"
    by (elim exE conjE) (intro conjI, assumption+)
  then show "FilesRemoved stats' = FilesRemoved stats"
    "set ex - File_Path ` set files \<subseteq> set ex'"
    "set ex' \<subseteq> set ex" "distinct ex \<longrightarrow> distinct ex'"
    by simp_all
qed

lemma removal_phase_facts:
  assumes "remove_loop E ps stats w = (stats', w')"
  shows "calls w' = calls w @ new_calls w w'"
    and "logged w' = logged w @ new_logged w w'"
    and "failures (new_logged w w') = 0"
    and "OpDeleteByFile ` set ps \<subseteq> fst ` set (new_calls w w')"
    and "FilesRemoved stats' = FilesRemoved stats + length (filter deleted_document (new_calls w w'))"
    and "FilesRemoved stats' + removal_failures (new_logged w w') = FilesRemoved stats + length ps"
    and "\<forall>q. q \<notin> set ps \<longrightarrow>
           OpDeleteDocument q \<notin> fst ` set (new_calls w w') \<and>
           map_of (documents w') q = map_of (documents w) q"
    and "\<forall>q \<in> set ps.
        (\<exists>err. FailedToRemove q err \<in> set (new_logged w w')) \<or>
        ((OpDeleteByFile q, True) \<in> set (new_calls w w') \<and>
         (OpDeleteDocument q, True) \<in> set (new_calls w w') \<and>
         map_of (documents w') q = None \<and>
         filter (\<lambda>kc. Chunk_FilePath (snd kc) = q) (chunks w') = [])"
proof -
  from remove_loop_outcome [OF assms] obtain cs ls where
    c: "calls w' = calls w @ cs" and l: "logged w' = logged w @ ls" and
    a: "FilesRemoved stats' = FilesRemoved stats + length (filter deleted_document cs)" and
    b: "FilesRemoved stats' + removal_failures ls = FilesRemoved stats + length ps" and
    d: "\<forall>q. q \<notin> set ps \<longrightarrow>
        OpDeleteDocument q \<notin> fst ` set cs \<and>
        map_of (documents w') q = map_of (documents w) q" and
    e: "\<forall>q \<in> set ps.
        (\<exists>err. FailedToRemove q err \<in> set ls) \<or>
        ((OpDeleteByFile q, True) \<in> set cs \<and> (OpDeleteDocument q, True) \<in> set cs \<and>
         map_of (documents w') q = None \<and>
         filter (\<lambda>kc. Chunk_FilePath (snd kc) = q) (chunks w') = [])"
    by (elim exE conjE)
  from new_calls_append [OF c] have nc: "new_calls w w' = cs" .
  from new_logged_append [OF l] have nl: "new_logged w w' = ls" .
  show "calls w' = calls w @ new_calls w w'"
    "logged w' = logged w @ new_logged w w'"
    "FilesRemoved stats' = FilesRemoved stats + length (filter deleted_document (new_calls w w'))"
    "FilesRemoved stats' + removal_failures (new_logged w w') = FilesRemoved stats + length ps"
    "\<forall>q. q \<notin> set ps \<longrightarrow>
           OpDeleteDocument q \<notin> fst ` set (new_calls w w') \<and>
           map_of (documents w') q = map_of (documents w) q"
    "\<forall>q \<in> set ps.
        (\<exists>err. FailedToRemove q err \<in> set (new_logged w w')) \<or>
        ((OpDeleteByFile q, True) \<in> set (new_calls w w') \<and>
         (OpDeleteDocument q, True) \<in> set (new_calls w w') \<and>
         map_of (documents w') q = None \<and>
         filter (\<lambda>kc. Chunk_FilePath (snd kc) = q) (chunks w') = [])"
    unfolding nc nl by (fact c l a b d e)+
  from remove_loop_counts [OF assms] obtain cs' ls' where
    c': "calls w' = calls w @ cs'" and l': "logged w' = logged w @ ls'" and
    f: "failures ls' = 0" and g: "OpDeleteByFile ` set ps \<subseteq> fst ` set cs'"
    by (elim exE conjE)
  from new_calls_append [OF c'] have nc': "new_calls w w' = cs'" .
  from new_logged_append [OF l'] have nl': "new_logged w w' = ls'" .
  show "failures (new_logged w w') = 0"
    "OpDeleteByFile ` set ps \<subseteq> fst ` set (new_calls w w')"
    unfolding nc' nl' by (fact f g)+
qed

lemma no_failure_logged:
  "failures ls = 0 \<Longrightarrow> FailedToIndex p err \<notin> set ls"
proof
  assume a: "failures ls = 0" and b: "FailedToIndex p err \<in> set ls"
  from b have "FailedToIndex p err \<in> set (filter failed_to_index ls)" by simp
  then have "filter failed_to_index ls \<noteq> []" by (cases "filter failed_to_index ls") simp_all
  with a show False by (simp add: failures_def)
qed

lemma not_index_call_delete: "list_all (\<lambda>e. index_phase_call (fst e)) cs \<Longrightarrow>
  OpDeleteDocument q \<notin> fst ` set cs \<and> filter deleted_document cs = []"
proof (induction cs)
  case Nil
  show ?case by simp
next
  case (Cons c cs)
  then have i: "index_phase_call (fst c)" and
    ih: "OpDeleteDocument q \<notin> fst ` set cs \<and> filter deleted_document cs = []"
    by simp_all
  obtain x b where c: "c = (x, b)" by (cases c)
  from i c have "x \<noteq> OpDeleteDocument q" "\<not> deleted_document (x, b)"
    by (cases x; simp add: index_phase_call_def)+
  with ih c show ?case by simp
qed

subsection \<open>Deletion propagation\<close>

text \<open>
  C4, as the claim states it, fails. The store lists \<open>a.txt\<close> and \<open>old.txt\<close>, the scan
  has only \<open>a.txt\<close>, unchanged, and the store rejects the deletion of the chunks of
  \<open>old.txt\<close>. \<open>IndexAll\<close> logs the failed removal and completes without error:
  \<open>old.txt\<close> keeps its document and its chunk and is not counted in \<open>FilesRemoved\<close>.
\<close>

theorem IndexAll_failed_removal_counterexample:
  "map fst (documents two_file_world) = [''a.txt'', ''old.txt''] \<and>
   fst (IndexAll (demo_env [demo_file ''a.txt'' ''h1'' ''x''] (delete_fails_on ''old.txt'')
          first_key) two_file_world) =
     Inr \<lparr>FilesIndexed = 0, FilesSkipped = 0, ChunksCreated = 0, FilesRemoved = 0,
          Duration = 3\<rparr> \<and>
   logged (snd (IndexAll (demo_env [demo_file ''a.txt'' ''h1'' ''x''] (delete_fails_on ''old.txt'')
          first_key) two_file_world)) =
     [FailedToRemove ''old.txt'' (Wrapped ''failed to delete chunks'' StoreError)] \<and>
   map_of (documents (snd (IndexAll (demo_env [demo_file ''a.txt'' ''h1'' ''x'']
          (delete_fails_on ''old.txt'') first_key) two_file_world))) ''old.txt'' =
     Some (demo_doc ''old.txt'' ''h0'') \<and>
   map_of (chunks (snd (IndexAll (demo_env [demo_file ''a.txt'' ''h1'' ''x'']
          (delete_fails_on ''old.txt'') first_key) two_file_world))) ''old.txt#1'' =
     Some (demo_chunk ''old.txt'' ''o'' 0)"
  by (simp add: IndexAll_def IndexFile_def RemoveFile_def store_defs demo_defs2 Let_def)

text \<open>
  C4, amended. The removal phase is best-effort. When \<open>IndexAll\<close> returns its statistics,
  whichever calls failed: for every path that the store listed and the scan does not
  contain, \<open>DeleteByFile\<close> has been called, and either the removal is logged as failed
  or \<open>DeleteByFile\<close> and \<open>DeleteDocument\<close> have both been applied to it and its
  document and its chunks are gone; \<open>FilesRemoved\<close> is the number of \<open>DeleteDocument\<close>
  calls that succeeded, and when no file is logged as failed to index, \<open>FilesRemoved\<close>
  and the removals logged as failed add up to the number of those paths. A path of the
  scan that is not logged as failed to index is not removed: \<open>DeleteDocument\<close> is never
  called for it, and if it had a document it still has one.
\<close>

theorem IndexAll_deletion_propagation:
  assumes scan: "Scan E = Inr (files, skipped)" and run: "IndexAll E w = (Inr stats, w')"
  shows "(\<forall>p \<in> fst ` set (documents w) - File_Path ` set files.
        OpDeleteByFile p \<in> fst ` set (new_calls w w') \<and>
        ((\<exists>err. FailedToRemove p err \<in> set (new_logged w w')) \<or>
         ((OpDeleteByFile p, True) \<in> set (new_calls w w') \<and>
          (OpDeleteDocument p, True) \<in> set (new_calls w w') \<and>
          map_of (documents w') p = None \<and>
          filter (\<lambda>kc. Chunk_FilePath (snd kc) = p) (chunks w') = []))) \<and>
     FilesRemoved stats = length (filter deleted_document (new_calls w w')) \<and>
     (failures (new_logged w w') = 0 \<longrightarrow>
        FilesRemoved stats + removal_failures (new_logged w w') =
          card (fst ` set (documents w) - File_Path ` set files)) \<and>
     (\<forall>p \<in> File_Path ` set files.
        (\<forall>err. FailedToIndex p err \<notin> set (new_logged w w')) \<longrightarrow>
        OpDeleteDocument p \<notin> fst ` set (new_calls w w') \<and>
        (p \<in> fst ` set (documents w) \<longrightarrow> p \<in> fst ` set (documents w')))"
proof -
  define V where "V = fst ` set (documents w) - File_Path ` set files"
  define w0 where "w0 = w\<lparr>logged := logged w @ map Skipped skipped\<rparr>"
  define stats0 where "stats0 = \<lparr>FilesIndexed = 0, FilesSkipped = length skipped,
     ChunksCreated = 0, FilesRemoved = 0, Duration = 0\<rparr>"
  define b where "b = (\<not> fails E (length (calls w)) OpListDocuments)"
  define w1 where "w1 = w0\<lparr>calls := calls w0 @ [(OpListDocuments, True)]\<rparr>"
  define ex0 where "ex0 = remdups (map fst (documents w))"
  define L where "L = index_loop E files stats0 ex0 w1"
  have b
  proof (rule ccontr)
    assume "\<not> b"
    then have "isl (fst (IndexAll E w))"
      using scan by (simp add: IndexAll_def Let_def store_defs b_def)
    with run show False by simp
  qed
  then have l: "ListDocuments E w0 = (Inr (map fst (documents w)), w1)"
    by (simp add: store_defs w1_def w0_def b_def)
  have nl: "\<not> isl (fst L)"
  proof
    assume "isl (fst L)"
    then have "isl (fst (IndexAll E w))"
      using scan l
      by (simp add: IndexAll_def Let_def w0_def [symmetric] stats0_def [symmetric]
            ex0_def [symmetric] L_def [symmetric] case_prod_beta sum.case_eq_if)
    with run show False by simp
  qed
  define stats2 where "stats2 = fst (projr (fst L))"
  define ex2 where "ex2 = snd (projr (fst L))"
  define w2 where "w2 = snd L"
  from nl have "fst L = Inr (stats2, ex2)"
    by (cases "fst L") (simp_all add: stats2_def ex2_def)
  then have loop: "index_loop E files stats0 ex0 w1 = (Inr (stats2, ex2), w2)"
    unfolding L_def [symmetric] w2_def by (simp add: prod_eq_iff)
  define ps where "ps = range_order (pick E) (length ex2) ex2"
  define R where "R = remove_loop E ps stats2 w2"
  have rem: "remove_loop E ps stats2 w2 = (fst R, w')"
    using run scan l loop
    by (auto simp: IndexAll_def Let_def w0_def [symmetric] stats0_def [symmetric]
          ex0_def [symmetric] ps_def [symmetric] R_def [symmetric] case_prod_beta)
  have res: "FilesRemoved stats = FilesRemoved (fst R)"
    using run scan l loop
    by (auto simp: IndexAll_def Let_def w0_def [symmetric] stats0_def [symmetric]
          ex0_def [symmetric] ps_def [symmetric] R_def [symmetric] case_prod_beta)
  note I = index_phase_facts [OF loop]
  note X = removal_phase_facts [OF rem]
  have nc: "new_calls w w' = (OpListDocuments, True) # new_calls w1 w2 @ new_calls w2 w'"
    by (rule new_calls_append) (simp add: X(1) I(1) w1_def w0_def)
  have nlg: "new_logged w w' = map Skipped skipped @ new_logged w1 w2 @ new_logged w2 w'"
    by (rule new_logged_append) (simp add: X(2) I(2) w1_def w0_def)
  have d2: "distinct ex2" using I(10) by (simp add: ex0_def)
  from range_order_perm [OF d2, of "length ex2" "pick E"] have sp: "set ps = set ex2"
    by (simp add: ps_def)
  from range_order_length [OF d2, of "pick E"] have lp: "length ps = length ex2"
    by (simp add: ps_def)
  have s0: "set ex0 = fst ` set (documents w)" by (simp add: ex0_def)
  from I(8) have Vsub: "V \<subseteq> set ex2" by (simp add: V_def s0)
  from I(9) have sub0: "set ex2 \<subseteq> fst ` set (documents w)" by (simp add: s0)
  have fs2: "FilesRemoved stats2 = 0" using I(7) by (simp add: stats0_def)
  note idx = not_index_call_delete [OF I(3)]
  have part1: "OpDeleteByFile p \<in> fst ` set (new_calls w w') \<and>
        ((\<exists>err. FailedToRemove p err \<in> set (new_logged w w')) \<or>
         ((OpDeleteByFile p, True) \<in> set (new_calls w w') \<and>
          (OpDeleteDocument p, True) \<in> set (new_calls w w') \<and>
          map_of (documents w') p = None \<and>
          filter (\<lambda>kc. Chunk_FilePath (snd kc) = p) (chunks w') = []))"
    if "p \<in> V" for p
  proof -
    from that Vsub sp have pin: "p \<in> set ps" by auto
    with X(4) have a: "OpDeleteByFile p \<in> fst ` set (new_calls w w')"
      by (auto simp: nc)
    from bspec [OF X(8) pin] have
      "(\<exists>err. FailedToRemove p err \<in> set (new_logged w w')) \<or>
         ((OpDeleteByFile p, True) \<in> set (new_calls w w') \<and>
          (OpDeleteDocument p, True) \<in> set (new_calls w w') \<and>
          map_of (documents w') p = None \<and>
          filter (\<lambda>kc. Chunk_FilePath (snd kc) = p) (chunks w') = [])"
    proof
      assume "\<exists>err. FailedToRemove p err \<in> set (new_logged w2 w')"
      then obtain err where "FailedToRemove p err \<in> set (new_logged w2 w')" ..
      then have "FailedToRemove p err \<in> set (new_logged w w')" by (simp add: nlg)
      then show ?thesis by (intro disjI1 exI)
    next
      assume "(OpDeleteByFile p, True) \<in> set (new_calls w2 w') \<and>
         (OpDeleteDocument p, True) \<in> set (new_calls w2 w') \<and>
         map_of (documents w') p = None \<and>
         filter (\<lambda>kc. Chunk_FilePath (snd kc) = p) (chunks w') = []"
      then show ?thesis by (simp add: nc)
    qed
    with a show ?thesis ..
  qed
  have part2: "FilesRemoved stats = length (filter deleted_document (new_calls w w'))"
    using X(5) idx [of undefined] by (simp add: res fs2 nc)
  have part3: "FilesRemoved stats + removal_failures (new_logged w w') = card V"
    if "failures (new_logged w w') = 0"
  proof -
    from that have f0: "failures (new_logged w1 w2) = 0" by (simp add: nlg)
    have "set ex2 \<inter> File_Path ` set files = {}"
    proof (rule ccontr)
      assume "set ex2 \<inter> File_Path ` set files \<noteq> {}"
      then obtain p where "p \<in> set ex2 \<inter> File_Path ` set files" by blast
      from bspec [OF I(5) this] obtain err where
        "FailedToIndex p err \<in> set (new_logged w1 w2)" ..
      with no_failure_logged [OF f0] show False by simp
    qed
    with Vsub sub0 have "set ex2 = V" by (auto simp: V_def)
    with d2 have "card V = length ex2" by (simp add: distinct_card [symmetric])
    moreover have "removal_failures (new_logged w w') = removal_failures (new_logged w2 w')"
      by (simp add: nlg removal_failures_Skipped I(4))
    ultimately show ?thesis using X(6) by (simp add: res fs2 lp)
  qed
  have part4: "OpDeleteDocument p \<notin> fst ` set (new_calls w w') \<and>
        (p \<in> fst ` set (documents w) \<longrightarrow> p \<in> fst ` set (documents w'))"
    if p: "p \<in> File_Path ` set files"
      and nf: "\<forall>err. FailedToIndex p err \<notin> set (new_logged w w')" for p
  proof -
    have "p \<notin> set ex2"
    proof
      assume "p \<in> set ex2"
      with p have "p \<in> set ex2 \<inter> File_Path ` set files" by simp
      from bspec [OF I(5) this] obtain err where
        "FailedToIndex p err \<in> set (new_logged w1 w2)" ..
      then have "FailedToIndex p err \<in> set (new_logged w w')" by (simp add: nlg)
      with nf show False by simp
    qed
    with sp have "p \<notin> set ps" by simp
    with X(7) have x: "OpDeleteDocument p \<notin> fst ` set (new_calls w2 w')"
      "map_of (documents w') p = map_of (documents w2) p"
      by simp_all
    from idx [of p] have "OpDeleteDocument p \<notin> fst ` set (new_calls w1 w2)" by simp
    with x(1) have a: "OpDeleteDocument p \<notin> fst ` set (new_calls w w')"
      by (simp add: nc image_Un)
    have c: "p \<in> fst ` set (documents w')" if "p \<in> fst ` set (documents w)"
    proof -
      from that I(6) have "p \<in> fst ` set (documents w2)" by (auto simp: w1_def w0_def)
      then have "map_of (documents w2) p \<noteq> None" by (simp add: map_of_eq_None_iff)
      with x(2) have "map_of (documents w') p \<noteq> None" by simp
      then show ?thesis by (simp add: map_of_eq_None_iff)
    qed
    from a c show ?thesis by simp
  qed
  from part1 part2 part3 part4 show ?thesis unfolding V_def by (intro conjI ballI impI) simp_all
qed

theorem IndexAll_deletion_propagation_witness:
  "Scan (demo_env [demo_file ''a.txt'' ''h1'' ''x''] never first_key) =
     Inr ([demo_file ''a.txt'' ''h1'' ''x''], []) \<and>
   fst (IndexAll (demo_env [demo_file ''a.txt'' ''h1'' ''x''] never first_key) two_file_world) =
     Inr \<lparr>FilesIndexed = 0, FilesSkipped = 0, ChunksCreated = 0, FilesRemoved = 1,
          Duration = 4\<rparr> \<and>
   ''old.txt'' \<in> fst ` set (documents two_file_world) -
      File_Path ` set [demo_file ''a.txt'' ''h1'' ''x''] \<and>
   ''a.txt'' \<in> File_Path ` set [demo_file ''a.txt'' ''h1'' ''x''] \<and>
   new_logged two_file_world
     (snd (IndexAll (demo_env [demo_file ''a.txt'' ''h1'' ''x''] never first_key)
        two_file_world)) = [] \<and>
   map_of (documents (snd (IndexAll (demo_env [demo_file ''a.txt'' ''h1'' ''x''] never first_key)
      two_file_world))) ''old.txt'' = None \<and>
   filter (\<lambda>kc. Chunk_FilePath (snd kc) = ''old.txt'')
     (chunks (snd (IndexAll (demo_env [demo_file ''a.txt'' ''h1'' ''x''] never first_key)
        two_file_world))) = [] \<and>
   length (filter deleted_document (new_calls two_file_world
     (snd (IndexAll (demo_env [demo_file ''a.txt'' ''h1'' ''x''] never first_key)
        two_file_world)))) = 1 \<and>
   card (fst ` set (documents two_file_world) -
      File_Path ` set [demo_file ''a.txt'' ''h1'' ''x'']) = 1 \<and>
   OpDeleteDocument ''a.txt'' \<notin> fst ` set (new_calls two_file_world
      (snd (IndexAll (demo_env [demo_file ''a.txt'' ''h1'' ''x''] never first_key)
         two_file_world))) \<and>
   ''a.txt'' \<in> fst ` set (documents
      (snd (IndexAll (demo_env [demo_file ''a.txt'' ''h1'' ''x''] never first_key)
         two_file_world))) \<and>
   Scan (demo_env [demo_file ''a.txt'' ''h1'' ''x''] (delete_fails_on ''old.txt'') first_key) =
     Inr ([demo_file ''a.txt'' ''h1'' ''x''], []) \<and>
   fst (IndexAll (demo_env [demo_file ''a.txt'' ''h1'' ''x''] (delete_fails_on ''old.txt'')
          first_key) two_file_world) =
     Inr \<lparr>FilesIndexed = 0, FilesSkipped = 0, ChunksCreated = 0, FilesRemoved = 0,
          Duration = 3\<rparr> \<and>
   new_logged two_file_world
     (snd (IndexAll (demo_env [demo_file ''a.txt'' ''h1'' ''x''] (delete_fails_on ''old.txt'')
        first_key) two_file_world)) =
     [FailedToRemove ''old.txt'' (Wrapped ''failed to delete chunks'' StoreError)] \<and>
   OpDeleteByFile ''old.txt'' \<in> fst ` set (new_calls two_file_world
     (snd (IndexAll (demo_env [demo_file ''a.txt'' ''h1'' ''x''] (delete_fails_on ''old.txt'')
        first_key) two_file_world))) \<and>
   length (filter deleted_document (new_calls two_file_world
     (snd (IndexAll (demo_env [demo_file ''a.txt'' ''h1'' ''x''] (delete_fails_on ''old.txt'')
        first_key) two_file_world)))) = 0"
proof -
  let ?a = "demo_file ''a.txt'' ''h1'' ''x''"
  let ?E = "demo_env [?a] never first_key"
  let ?F = "demo_env [?a] (delete_fails_on ''old.txt'') first_key"
  let ?st = "\<lparr>FilesIndexed = 0, FilesSkipped = 0, ChunksCreated = 0, FilesRemoved = 1,
          Duration = 4\<rparr>"
  let ?sf = "\<lparr>FilesIndexed = 0, FilesSkipped = 0, ChunksCreated = 0, FilesRemoved = 0,
          Duration = 3\<rparr>"
  let ?w = "snd (IndexAll ?E two_file_world)"
  let ?v = "snd (IndexAll ?F two_file_world)"
  have scan: "Scan ?E = Inr ([?a], [])" by (simp add: demo_env_def)
  have st: "fst (IndexAll ?E two_file_world) = Inr ?st"
    by (simp add: IndexAll_def IndexFile_def RemoveFile_def store_defs demo_defs2 Let_def)
  then have run: "IndexAll ?E two_file_world = (Inr ?st, ?w)"
    by (simp only: prod_eq_iff fst_conv snd_conv simp_thms)
  have old: "''old.txt'' \<in> fst ` set (documents two_file_world) - File_Path ` set [?a]"
    by (simp add: demo_defs2)
  have a: "''a.txt'' \<in> File_Path ` set [?a]" by (simp add: demo_defs)
  have lg: "new_logged two_file_world ?w = []"
    by (simp add: IndexAll_def IndexFile_def RemoveFile_def store_defs demo_defs2 Let_def)
  note T = IndexAll_deletion_propagation [OF scan run]
  from bspec [OF T [THEN conjunct1] old] have
    gone: "map_of (documents ?w) ''old.txt'' = None"
      "filter (\<lambda>kc. Chunk_FilePath (snd kc) = ''old.txt'') (chunks ?w) = []"
    unfolding lg by simp_all
  from T [THEN conjunct2, THEN conjunct1]
  have count: "length (filter deleted_document (new_calls two_file_world ?w)) = 1" by simp
  from T [THEN conjunct2, THEN conjunct2, THEN conjunct1]
  have card: "card (fst ` set (documents two_file_world) - File_Path ` set [?a]) = 1"
    unfolding lg by simp
  from bspec [OF T [THEN conjunct2, THEN conjunct2, THEN conjunct2] a]
  have kept: "OpDeleteDocument ''a.txt'' \<notin> fst ` set (new_calls two_file_world ?w)"
    "''a.txt'' \<in> fst ` set (documents ?w)"
    unfolding lg by (simp_all add: two_file_world_def)
  have scan': "Scan ?F = Inr ([?a], [])" by (simp add: demo_env_def)
  have sf: "fst (IndexAll ?F two_file_world) = Inr ?sf"
    by (simp add: IndexAll_def IndexFile_def RemoveFile_def store_defs demo_defs2 Let_def)
  then have run': "IndexAll ?F two_file_world = (Inr ?sf, ?v)"
    by (simp only: prod_eq_iff fst_conv snd_conv simp_thms)
  have lg': "new_logged two_file_world ?v =
      [FailedToRemove ''old.txt'' (Wrapped ''failed to delete chunks'' StoreError)]"
    by (simp add: IndexAll_def IndexFile_def RemoveFile_def store_defs demo_defs2 Let_def)
  note U = IndexAll_deletion_propagation [OF scan' run']
  from bspec [OF U [THEN conjunct1] old]
  have tried: "OpDeleteByFile ''old.txt'' \<in> fst ` set (new_calls two_file_world ?v)"
    by (rule conjunct1)
  from U [THEN conjunct2, THEN conjunct1]
  have count': "length (filter deleted_document (new_calls two_file_world ?v)) = 0" by simp
  show ?thesis
    by (intro conjI scan st old a lg gone count card kept scan' sf lg' tried count')
qed

text \<open>
  A scanned file that fails to index is removed. The failure branch of the indexing loop
  goes on to the next file without taking the path out of \<open>existingMap\<close>, so the loop
  that removes deleted files visits it: \<open>a.txt\<close> is in the scan, \<open>EmbedBatch\<close> fails on
  it, and the run deletes its document and counts it in \<open>FilesRemoved\<close>, together
  with \<open>old.txt\<close>, which did vanish.
\<close>

lemma IndexAll_removes_failed_file:
  "''a.txt'' \<in> File_Path ` set [demo_file ''a.txt'' ''h2'' ''y'', demo_file ''b.txt'' ''h3'' ''z''] \<and>
   map fst (documents two_file_world) = [''a.txt'', ''old.txt''] \<and>
   fst (IndexAll (demo_env [demo_file ''a.txt'' ''h2'' ''y'', demo_file ''b.txt'' ''h3'' ''z'']
           (embed_fails_on ''y'') first_key) two_file_world) =
     Inr \<lparr>FilesIndexed = 1, FilesSkipped = 0, ChunksCreated = 1, FilesRemoved = 2,
          Duration = 13\<rparr> \<and>
   new_logged two_file_world
     (snd (IndexAll (demo_env [demo_file ''a.txt'' ''h2'' ''y'', demo_file ''b.txt'' ''h3'' ''z'']
           (embed_fails_on ''y'') first_key) two_file_world)) =
     [FailedToIndex ''a.txt'' (Wrapped ''failed to embed chunks'' EmbedderError)] \<and>
   map fst (new_calls two_file_world
     (snd (IndexAll (demo_env [demo_file ''a.txt'' ''h2'' ''y'', demo_file ''b.txt'' ''h3'' ''z'']
           (embed_fails_on ''y'') first_key) two_file_world))) =
     [OpListDocuments, OpGetDocument ''a.txt'', OpDeleteByFile ''a.txt'', OpEmbedBatch [''y''],
      OpGetDocument ''b.txt'', OpDeleteByFile ''b.txt'', OpEmbedBatch [''z''],
      OpSaveChunks [''b.txt#1''], OpSaveDocument (demo_doc ''b.txt'' ''h3''),
      OpDeleteByFile ''a.txt'', OpDeleteDocument ''a.txt'',
      OpDeleteByFile ''old.txt'', OpDeleteDocument ''old.txt''] \<and>
   map fst (documents
     (snd (IndexAll (demo_env [demo_file ''a.txt'' ''h2'' ''y'', demo_file ''b.txt'' ''h3'' ''z'']
           (embed_fails_on ''y'') first_key) two_file_world))) = [''b.txt'']"
  by (simp add: IndexAll_def IndexFile_def RemoveFile_def store_defs demo_defs2 Let_def)

subsection \<open>The order of processing\<close>

lemma no_get_in: "list_all (\<lambda>e. Q (fst e)) cs \<Longrightarrow> (\<And>c. Q c \<Longrightarrow> \<not> is_get c) \<Longrightarrow>
  filter is_get (map fst cs) = []"
  by (induction cs) auto

lemma file_call_not_get: "file_call c \<Longrightarrow> \<not> is_get c"
  by (cases c) simp_all

lemma removal_call_not_get: "removal_call c \<Longrightarrow> \<not> is_get c"
  by (cases c) simp_all

lemma IndexFile_no_get:
  "\<exists>cs. calls (snd (IndexFile E f w)) = calls w @ cs \<and> filter is_get (map fst cs) = []"
proof -
  have "steps file_call w (snd (IndexFile E f w))" by (rule steps_IndexFile)
  then have c: "calls (snd (IndexFile E f w)) = calls w @ new_calls w (snd (IndexFile E f w))"
    and la: "list_all (\<lambda>e. file_call (fst e)) (new_calls w (snd (IndexFile E f w)))"
    by (simp_all add: steps_def)
  from la have "filter is_get (map fst (new_calls w (snd (IndexFile E f w)))) = []"
    by (rule no_get_in) (rule file_call_not_get)
  with c show ?thesis by (intro exI conjI)
qed

lemma remove_loop_no_get:
  "\<exists>cs. calls (snd (remove_loop E ps stats w)) = calls w @ cs \<and>
        filter is_get (map fst cs) = []"
proof -
  have "steps removal_call w (snd (remove_loop E ps stats w))" by (rule steps_remove_loop)
  then have c: "calls (snd (remove_loop E ps stats w)) =
                  calls w @ new_calls w (snd (remove_loop E ps stats w))"
    and la: "list_all (\<lambda>e. removal_call (fst e)) (new_calls w (snd (remove_loop E ps stats w)))"
    by (simp_all add: steps_def)
  from la have "filter is_get (map fst (new_calls w (snd (remove_loop E ps stats w)))) = []"
    by (rule no_get_in) (rule removal_call_not_get)
  with c show ?thesis by (intro exI conjI)
qed

lemma index_loop_gets:
  "\<exists>cs n. calls (snd (index_loop E files stats ex w)) = calls w @ cs \<and>
     filter is_get (map fst cs) = map (\<lambda>f. OpGetDocument (File_Path f)) (take n files) \<and>
     (isl (fst (index_loop E files stats ex w)) \<or> n = length files)"
proof (induction files arbitrary: stats ex w)
  case Nil
  show ?case by simp
next
  case (Cons f files)
  let ?p = "File_Path f"
  let ?b = "\<not> fails E (length (calls w)) (OpGetDocument ?p)"
  let ?w1 = "w\<lparr>calls := calls w @ [(OpGetDocument ?p, ?b)]\<rparr>"
  show ?case
  proof (cases ?b)
    case False
    then have "index_loop E (f # files) stats ex w =
        (Inl (Wrapped (''failed to get document '' @ ?p) StoreError), ?w1)"
      by (simp add: store_defs)
    then show ?thesis
      by (intro exI [of _ "[(OpGetDocument ?p, ?b)]"] exI [of _ "Suc 0"]) simp
  next
    case True
    then have g: "GetDocument E ?p w = (Inr (map_of (documents w) ?p), ?w1)"
      by (simp add: store_defs)
    show ?thesis
    proof (cases "unchanged (map_of (documents w) ?p) f")
      case True
      from Cons.IH [of stats "removeAll ?p ex" ?w1] obtain cs n where
        c: "calls (snd (index_loop E files stats (removeAll ?p ex) ?w1)) = calls ?w1 @ cs" and
        q: "filter is_get (map fst cs) = map (\<lambda>f. OpGetDocument (File_Path f)) (take n files)" and
        r: "isl (fst (index_loop E files stats (removeAll ?p ex) ?w1)) \<or> n = length files"
        by blast
      have e: "index_loop E (f # files) stats ex w =
                 index_loop E files stats (removeAll ?p ex) ?w1"
        using True by (simp add: g)
      from c q r show ?thesis
        unfolding e
        by (intro exI [of _ "(OpGetDocument ?p, ?b) # cs"] exI [of _ "Suc n"]) auto
    next
      case False
      obtain r2 w2 where i: "IndexFile E f ?w1 = (r2, w2)" by fastforce
      from IndexFile_no_get [of E f ?w1] i obtain cs2 where
        c2: "calls w2 = calls ?w1 @ cs2" and q2: "filter is_get (map fst cs2) = []"
        by auto
      define stats1 ex1 w3 where
        "stats1 = (case r2 of Inl err \<Rightarrow> stats
                   | Inr k \<Rightarrow> stats\<lparr>FilesIndexed := FilesIndexed stats + 1,
                                     ChunksCreated := ChunksCreated stats + k\<rparr>)" and
        "ex1 = (case r2 of Inl err \<Rightarrow> ex | Inr k \<Rightarrow> removeAll ?p ex)" and
        "w3 = (case r2 of Inl err \<Rightarrow> w2\<lparr>logged := logged w2 @ [FailedToIndex ?p err]\<rparr>
               | Inr k \<Rightarrow> w2)"
      have e: "index_loop E (f # files) stats ex w = index_loop E files stats1 ex1 w3"
        using False i by (simp add: g stats1_def ex1_def w3_def split: sum.splits)
      have c3: "calls w3 = calls w2" by (simp add: w3_def split: sum.splits)
      from Cons.IH [of stats1 ex1 w3] obtain cs n where
        c: "calls (snd (index_loop E files stats1 ex1 w3)) = calls w3 @ cs" and
        q: "filter is_get (map fst cs) = map (\<lambda>f. OpGetDocument (File_Path f)) (take n files)" and
        r: "isl (fst (index_loop E files stats1 ex1 w3)) \<or> n = length files"
        by blast
      from c q r c2 q2 c3 show ?thesis
        unfolding e
        by (intro exI [of _ "(OpGetDocument ?p, ?b) # cs2 @ cs"] exI [of _ "Suc n"]) auto
    qed
  qed
qed

lemma IndexAll_gets:
  assumes scan: "Scan E = Inr (files, skipped)"
  shows "\<exists>n. filter is_get (map fst (new_calls w (snd (IndexAll E w)))) =
              map (\<lambda>f. OpGetDocument (File_Path f)) (take n files) \<and>
            (isl (fst (IndexAll E w)) \<or> n = length files)"
proof -
  define w0 where "w0 = w\<lparr>logged := logged w @ map Skipped skipped\<rparr>"
  define b where "b = (\<not> fails E (length (calls w)) OpListDocuments)"
  define w1 where "w1 = w0\<lparr>calls := calls w0 @ [(OpListDocuments, b)]\<rparr>"
  define stats0 where "stats0 = \<lparr>FilesIndexed = 0, FilesSkipped = length skipped,
     ChunksCreated = 0, FilesRemoved = 0, Duration = 0\<rparr>"
  define ex0 where "ex0 = remdups (map fst (documents w))"
  show ?thesis
  proof (cases b)
    case False
    then have "IndexAll E w = (Inl (Wrapped ''failed to list documents'' StoreError), w1)"
      using scan
      by (simp add: IndexAll_def Let_def store_defs w1_def w0_def b_def)
    then have "new_calls w (snd (IndexAll E w)) = [(OpListDocuments, b)]"
      "isl (fst (IndexAll E w))"
      by (simp_all add: new_calls_def w1_def w0_def)
    then show ?thesis by (intro exI [of _ 0]) simp
  next
    case True
    then have l: "ListDocuments E w0 = (Inr (map fst (documents w)), w1)"
      by (simp add: store_defs w1_def w0_def b_def)
    obtain r2 w2 where loop: "index_loop E files stats0 ex0 w1 = (r2, w2)" by fastforce
    from index_loop_gets [of E files stats0 ex0 w1] loop obtain cs n where
      c: "calls w2 = calls w1 @ cs" and
      q: "filter is_get (map fst cs) = map (\<lambda>f. OpGetDocument (File_Path f)) (take n files)" and
      r: "isl r2 \<or> n = length files"
      by auto
    show ?thesis
    proof (cases r2)
      case (Inl err)
      then have "IndexAll E w = (Inl err, w2)"
        using scan l loop
        by (simp add: IndexAll_def Let_def w0_def [symmetric] stats0_def [symmetric]
              ex0_def [symmetric])
      moreover have "new_calls w w2 = (OpListDocuments, b) # cs"
        by (rule new_calls_append) (simp add: c w1_def w0_def)
      ultimately show ?thesis using q by (intro exI [of _ n]) simp
    next
      case (Inr se)
      obtain stats2 ex2 where se: "se = (stats2, ex2)" by fastforce
      obtain stats3 w3 where
        rem: "remove_loop E (range_order (pick E) (length ex2) ex2) stats2 w2 = (stats3, w3)"
        by fastforce
      from remove_loop_no_get [of E "range_order (pick E) (length ex2) ex2" stats2 w2] rem
      obtain cs3 where c3: "calls w3 = calls w2 @ cs3" and q3: "filter is_get (map fst cs3) = []"
        by auto
      have "IndexAll E w =
          (Inr (stats3\<lparr>Duration := now E (length (calls w3)) - now E (length (calls w))\<rparr>), w3)"
        using scan l loop Inr se rem
        by (simp add: IndexAll_def Let_def w0_def [symmetric] stats0_def [symmetric]
              ex0_def [symmetric])
      moreover have "new_calls w w3 = (OpListDocuments, b) # cs @ cs3"
        by (rule new_calls_append) (simp add: c3 c w1_def w0_def)
      ultimately show ?thesis using q q3 r Inr by (intro exI [of _ n]) simp
    qed
  qed
qed

lemma index_loop_pick:
  "index_loop (E\<lparr>pick := pk\<rparr>) files stats ex w = index_loop E files stats ex w"
proof (induction files arbitrary: stats ex w)
  case Nil
  show ?case by simp
next
  case (Cons f files)
  have g: "GetDocument (E\<lparr>pick := pk\<rparr>) p v = GetDocument E p v" for p v
    by (simp add: store_defs)
  have d: "DeleteByFile (E\<lparr>pick := pk\<rparr>) p v = DeleteByFile E p v" for p v
    by (simp add: store_defs)
  have e: "EmbedBatch (E\<lparr>pick := pk\<rparr>) ts v = EmbedBatch E ts v" for ts v
    by (simp add: store_defs)
  have s: "SaveChunks (E\<lparr>pick := pk\<rparr>) cs v = SaveChunks E cs v" for cs v
    by (simp add: store_defs)
  have sd: "SaveDocument (E\<lparr>pick := pk\<rparr>) doc v = SaveDocument E doc v" for doc v
    by (simp add: store_defs)
  have i: "IndexFile (E\<lparr>pick := pk\<rparr>) f v = IndexFile E f v" for v
    by (simp add: IndexFile_def d e s sd cong: prod.case_cong sum.case_cong if_cong)
  show ?case
    by (simp add: g i Cons.IH cong: prod.case_cong sum.case_cong if_cong)
qed

lemma IndexAll_pick:
  assumes nofail: "\<forall>n c. \<not> fails E n c"
  shows "fst (IndexAll (E\<lparr>pick := pk\<rparr>) w) = fst (IndexAll E w) \<and>
     chunks (snd (IndexAll (E\<lparr>pick := pk\<rparr>) w)) = chunks (snd (IndexAll E w)) \<and>
     documents (snd (IndexAll (E\<lparr>pick := pk\<rparr>) w)) = documents (snd (IndexAll E w)) \<and>
     (\<exists>common ps ps'.
        new_calls w (snd (IndexAll E w)) = common @ removal_calls ps \<and>
        new_calls w (snd (IndexAll (E\<lparr>pick := pk\<rparr>) w)) = common @ removal_calls ps' \<and>
        set ps = set ps' \<and> distinct ps \<and> distinct ps')"
proof (cases "Scan E")
  case (Inl err)
  then have "IndexAll (E\<lparr>pick := pk\<rparr>) w = IndexAll E w" "new_calls w (snd (IndexAll E w)) = []"
    by (simp_all add: IndexAll_def new_calls_def)
  then show ?thesis
    by (intro conjI exI [of _ "[]"]) (simp_all add: removal_calls_def)
next
  case (Inr fs)
  obtain files skipped where fs: "fs = (files, skipped)" by fastforce
  let ?E' = "E\<lparr>pick := pk\<rparr>"
  have nofail': "\<forall>n c. \<not> fails ?E' n c" using nofail by simp
  define w0 where "w0 = w\<lparr>logged := logged w @ map Skipped skipped\<rparr>"
  define w1 where "w1 = w0\<lparr>calls := calls w0 @ [(OpListDocuments, True)]\<rparr>"
  define stats0 where "stats0 = \<lparr>FilesIndexed = 0, FilesSkipped = length skipped,
     ChunksCreated = 0, FilesRemoved = 0, Duration = 0\<rparr>"
  define ex0 where "ex0 = remdups (map fst (documents w))"
  define ex2 where "ex2 = filter (\<lambda>k. k \<notin> File_Path ` set files) ex0"
  define ps where "ps = range_order (pick E) (length ex2) ex2"
  define ps' where "ps' = range_order pk (length ex2) ex2"
  have l: "ListDocuments E w0 = (Inr (map fst (documents w)), w1)"
    using nofail by (simp add: store_defs w1_def w0_def)
  have l': "ListDocuments ?E' w0 = (Inr (map fst (documents w)), w1)"
    using nofail by (simp add: store_defs w1_def w0_def)
  from index_loop_ok [OF nofail, of files stats0 ex0 w1] obtain stats2 w2 where
    loop: "index_loop E files stats0 ex0 w1 = (Inr (stats2, ex2), w2)"
    unfolding ex2_def by blast
  then have loop': "index_loop ?E' files stats0 ex0 w1 = (Inr (stats2, ex2), w2)"
    by (simp add: index_loop_pick)
  have d2: "distinct ex2" by (simp add: ex2_def ex0_def)
  from range_order_perm [OF d2, of "length ex2" "pick E"] have
    sp: "set ps = set ex2" and dp: "distinct ps"
    by (simp_all add: ps_def)
  from range_order_perm [OF d2, of "length ex2" pk] have
    sp': "set ps' = set ex2" and dp': "distinct ps'"
    by (simp_all add: ps'_def)
  have lp: "length ps = length ex2" unfolding ps_def using d2 by (rule range_order_length)
  have lp': "length ps' = length ex2" unfolding ps'_def using d2 by (rule range_order_length)
  have lr: "length (removal_calls qs) = 2 * length qs" for qs
    by (simp add: removal_calls_def length_concat comp_def sum_list_triv mult_2)
  have run: "IndexAll E w =
       (Inr (stats2\<lparr>FilesRemoved := FilesRemoved stats2 + length ps,
                    Duration := now E (length (calls w2) + length (removal_calls ps)) -
                                now E (length (calls w))\<rparr>),
        w2\<lparr>calls := calls w2 @ removal_calls ps,
            chunks := filter (\<lambda>kc. Chunk_FilePath (snd kc) \<notin> set ps) (chunks w2),
            documents := filter (\<lambda>kd. fst kd \<notin> set ps) (documents w2)\<rparr>)"
    using Inr fs l loop
    by (simp add: IndexAll_def Let_def w0_def [symmetric] stats0_def [symmetric]
          ex0_def [symmetric] ps_def [symmetric] remove_loop_ok [OF nofail]
          removal_calls_def [symmetric])
  have run': "IndexAll ?E' w =
       (Inr (stats2\<lparr>FilesRemoved := FilesRemoved stats2 + length ps',
                    Duration := now E (length (calls w2) + length (removal_calls ps')) -
                                now E (length (calls w))\<rparr>),
        w2\<lparr>calls := calls w2 @ removal_calls ps',
            chunks := filter (\<lambda>kc. Chunk_FilePath (snd kc) \<notin> set ps') (chunks w2),
            documents := filter (\<lambda>kd. fst kd \<notin> set ps') (documents w2)\<rparr>)"
    using Inr fs l' loop'
    by (simp add: IndexAll_def Let_def w0_def [symmetric] stats0_def [symmetric]
          ex0_def [symmetric] ps'_def [symmetric] remove_loop_ok [OF nofail']
          removal_calls_def [symmetric])
  have "steps index_phase_call w1 (snd (index_loop E files stats0 ex0 w1))"
    by (rule steps_index_loop)
  with loop have c2: "calls w2 = calls w1 @ new_calls w1 w2" by (simp add: steps_def)
  have n: "new_calls w (snd (IndexAll E w)) =
             ((OpListDocuments, True) # new_calls w1 w2) @ removal_calls ps"
    by (rule new_calls_append) (simp add: run c2 w1_def w0_def)
  have n': "new_calls w (snd (IndexAll ?E' w)) =
             ((OpListDocuments, True) # new_calls w1 w2) @ removal_calls ps'"
    by (rule new_calls_append) (simp add: run' c2 w1_def w0_def)
  have a: "fst (IndexAll ?E' w) = fst (IndexAll E w)"
    by (simp add: run run' lp lp' lr)
  have b: "chunks (snd (IndexAll ?E' w)) = chunks (snd (IndexAll E w))"
    by (simp add: run run' sp sp')
  have c: "documents (snd (IndexAll ?E' w)) = documents (snd (IndexAll E w))"
    by (simp add: run run' sp sp')
  from sp sp' have s: "set ps = set ps'" by simp
  show ?thesis
    by (intro conjI exI [of _ "(OpListDocuments, True) # new_calls w1 w2"]
          exI [of _ ps] exI [of _ ps'] a b c n n' s dp dp')
qed

text \<open>
  C6, as the claim states it, fails. With the same (empty) scan and the same store, which
  lists \<open>a.txt\<close> and \<open>old.txt\<close>, a run in which Go's runtime enumerates the map of
  vanished paths from its first key and a run in which it enumerates it from its last key
  make their calls in different orders, and the second one removes \<open>old.txt\<close> before
  \<open>a.txt\<close>. In the indexing phase a scan that returns \<open>b.txt\<close> before \<open>a.txt\<close> is
  processed in that order: \<open>IndexAll\<close> does not sort.
\<close>

theorem IndexAll_order_counterexample:
  "map fst (new_calls two_file_world
      (snd (IndexAll (demo_env [] never first_key) two_file_world))) =
     [OpListDocuments, OpDeleteByFile ''a.txt'', OpDeleteDocument ''a.txt'',
      OpDeleteByFile ''old.txt'', OpDeleteDocument ''old.txt''] \<and>
   map fst (new_calls two_file_world
      (snd (IndexAll (demo_env [] never last_key) two_file_world))) =
     [OpListDocuments, OpDeleteByFile ''old.txt'', OpDeleteDocument ''old.txt'',
      OpDeleteByFile ''a.txt'', OpDeleteDocument ''a.txt''] \<and>
   filter is_get (map fst (new_calls empty_world
      (snd (IndexAll (demo_env [demo_file ''b.txt'' ''h3'' ''z'', demo_file ''a.txt'' ''h1'' ''x'']
              never first_key) empty_world)))) =
     [OpGetDocument ''b.txt'', OpGetDocument ''a.txt'']"
proof -
  have c1: "map fst (new_calls two_file_world
      (snd (IndexAll (demo_env [] never first_key) two_file_world))) =
     [OpListDocuments, OpDeleteByFile ''a.txt'', OpDeleteDocument ''a.txt'',
      OpDeleteByFile ''old.txt'', OpDeleteDocument ''old.txt'']"
    by (simp add: IndexAll_def RemoveFile_def store_defs demo_defs2 Let_def)
  have c2: "map fst (new_calls two_file_world
      (snd (IndexAll (demo_env [] never last_key) two_file_world))) =
     [OpListDocuments, OpDeleteByFile ''old.txt'', OpDeleteDocument ''old.txt'',
      OpDeleteByFile ''a.txt'', OpDeleteDocument ''a.txt'']"
    by (simp add: IndexAll_def RemoveFile_def store_defs demo_defs2 Let_def)
  have c3: "filter is_get (map fst (new_calls empty_world
      (snd (IndexAll (demo_env [demo_file ''b.txt'' ''h3'' ''z'', demo_file ''a.txt'' ''h1'' ''x'']
              never first_key) empty_world)))) =
     [OpGetDocument ''b.txt'', OpGetDocument ''a.txt'']"
    by (simp add: IndexAll_def IndexFile_def store_defs demo_defs2 Let_def)
  show ?thesis by (intro conjI c1 c2 c3)
qed

subsection \<open>Runs that differ in the clock\<close>

lemma untimed_chunks_filter:
  "untimed_chunks (filter (\<lambda>kc. Chunk_FilePath (snd kc) \<noteq> p) cs) =
   filter (\<lambda>kc. Chunk_FilePath (snd kc) \<noteq> p) (untimed_chunks cs)"
  by (induction cs) (simp_all add: untimed_chunks_def untimed_def)

lemma untimed_chunks_update:
  "untimed_chunks (AList.update k c al) = AList.update k (untimed c) (untimed_chunks al)"
  by (induction al) (auto simp: untimed_chunks_def)

lemma untimed_chunks_fold:
  "untimed_chunks (fold (\<lambda>c al. AList.update (Chunk_ID c) c al) cs al) =
   fold (\<lambda>c al. AList.update (Chunk_ID c) c al) (map untimed cs) (untimed_chunks al)"
  by (induction cs arbitrary: al) (simp_all add: untimed_chunks_update, simp add: untimed_def)

lemma untimed_store_chunk: "untimed (store_chunk stamp z) = store_chunk 0 z"
  by (simp add: untimed_def store_chunk_def)

lemma store_chunk_id: "Chunk_ID (store_chunk stamp z) = Info_ID (fst z)"
  by (simp add: store_chunk_def)

lemma IndexFile_cases:
  "IndexFile E f w =
     (let p = File_Path f; n = length (calls w);
          infos = ChunkWithContext E p (File_Content f);
          texts = map Info_Content infos;
          kept = filter (\<lambda>kc. Chunk_FilePath (snd kc) \<noteq> p) (chunks w);
          cs = map (store_chunk (now E (n + 2))) (zip infos (map (embed E) texts));
          ids = map (\<lambda>z. Info_ID (fst z)) (zip infos (map (embed E) texts));
          doc = \<lparr>Doc_Path = p, Doc_Hash = File_Hash f, Doc_ModTime = File_ModTime f,
                 Doc_ChunkIDs = map Info_ID infos\<rparr>
      in if fails E n (OpDeleteByFile p)
         then (Inl (Wrapped ''failed to delete existing chunks'' StoreError),
               w\<lparr>calls := calls w @ [(OpDeleteByFile p, False)]\<rparr>)
         else if infos = []
         then (Inr 0, w\<lparr>calls := calls w @ [(OpDeleteByFile p, True)], chunks := kept\<rparr>)
         else if fails E (n + 1) (OpEmbedBatch texts)
         then (Inl (Wrapped ''failed to embed chunks'' EmbedderError),
               w\<lparr>calls := calls w @ [(OpDeleteByFile p, True), (OpEmbedBatch texts, False)],
                 chunks := kept\<rparr>)
         else if fails E (n + 2) (OpSaveChunks ids)
         then (Inl (Wrapped ''failed to save chunks'' StoreError),
               w\<lparr>calls := calls w @ [(OpDeleteByFile p, True), (OpEmbedBatch texts, True),
                                      (OpSaveChunks ids, False)],
                 chunks := kept\<rparr>)
         else if fails E (n + 3) (OpSaveDocument doc)
         then (Inl (Wrapped ''failed to save document'' StoreError),
               w\<lparr>calls := calls w @ [(OpDeleteByFile p, True), (OpEmbedBatch texts, True),
                                      (OpSaveChunks ids, True), (OpSaveDocument doc, False)],
                 chunks := fold (\<lambda>c al. AList.update (Chunk_ID c) c al) cs kept\<rparr>)
         else (Inr (length cs),
               w\<lparr>calls := calls w @ [(OpDeleteByFile p, True), (OpEmbedBatch texts, True),
                                      (OpSaveChunks ids, True), (OpSaveDocument doc, True)],
                 chunks := fold (\<lambda>c al. AList.update (Chunk_ID c) c al) cs kept,
                 documents := AList.update p doc (documents w)\<rparr>))"
  by (simp add: IndexFile_def store_defs Let_def store_chunk_id comp_def eval_nat_numeral)
lemma same_upto_time_refl: "same_upto_time w w"
  by (simp add: same_upto_time_def)

lemma same_upto_time_logged:
  "same_upto_time w v \<Longrightarrow>
   same_upto_time (w\<lparr>logged := logged w @ ls\<rparr>) (v\<lparr>logged := logged v @ ls\<rparr>)"
  by (simp add: same_upto_time_def)

lemma GetDocument_now: "GetDocument (E\<lparr>now := clk\<rparr>) p v = GetDocument E p v"
  by (simp add: store_defs)

lemma ListDocuments_now: "ListDocuments (E\<lparr>now := clk\<rparr>) v = ListDocuments E v"
  by (simp add: store_defs)

lemma RemoveFile_now: "RemoveFile (E\<lparr>now := clk\<rparr>) p v = RemoveFile E p v"
  by (simp add: RemoveFile_cases)

lemma GetDocument_rel:
  "same_upto_time w v \<Longrightarrow>
   fst (GetDocument E p v) = fst (GetDocument E p w) \<and>
   same_upto_time (snd (GetDocument E p w)) (snd (GetDocument E p v))"
  by (simp add: store_defs same_upto_time_def)

lemma RemoveFile_rel:
  "same_upto_time w v \<Longrightarrow>
   fst (RemoveFile E p v) = fst (RemoveFile E p w) \<and>
   same_upto_time (snd (RemoveFile E p w)) (snd (RemoveFile E p v))"
  by (simp add: RemoveFile_cases same_upto_time_def untimed_chunks_filter)

lemma IndexFile_rel:
  "same_upto_time w v \<Longrightarrow>
   fst (IndexFile (E\<lparr>now := clk\<rparr>) f v) = fst (IndexFile E f w) \<and>
   same_upto_time (snd (IndexFile E f w)) (snd (IndexFile (E\<lparr>now := clk\<rparr>) f v))"
  by (simp add: IndexFile_cases Let_def same_upto_time_def untimed_chunks_filter
        untimed_chunks_fold untimed_store_chunk comp_def)

lemma index_loop_rel:
  "same_upto_time w v \<Longrightarrow>
   fst (index_loop (E\<lparr>now := clk\<rparr>) files stats ex v) = fst (index_loop E files stats ex w) \<and>
   same_upto_time (snd (index_loop E files stats ex w))
     (snd (index_loop (E\<lparr>now := clk\<rparr>) files stats ex v))"
proof (induction files arbitrary: stats ex w v)
  case Nil
  then show ?case by simp
next
  case (Cons f files)
  let ?E = "E\<lparr>now := clk\<rparr>"
  let ?p = "File_Path f"
  define g where "g = fst (GetDocument E ?p w)"
  define w1 where "w1 = snd (GetDocument E ?p w)"
  define v1 where "v1 = snd (GetDocument E ?p v)"
  from GetDocument_rel [OF Cons.prems, of E ?p]
  have gw: "GetDocument E ?p w = (g, w1)" and gv: "GetDocument ?E ?p v = (g, v1)"
    and r1: "same_upto_time w1 v1"
    by (simp_all add: g_def w1_def v1_def GetDocument_now prod_eq_iff)
  show ?case
  proof (cases g)
    case (Inl err)
    with gw gv r1 show ?thesis by simp
  next
    case doc: (Inr doc)
    show ?thesis
    proof (cases "unchanged doc f")
      case True
      with gw gv doc Cons.IH [OF r1] show ?thesis by simp
    next
      case False
      define r2 where "r2 = fst (IndexFile E f w1)"
      define w2 where "w2 = snd (IndexFile E f w1)"
      define v2 where "v2 = snd (IndexFile ?E f v1)"
      from IndexFile_rel [OF r1, where E = E and clk = clk and f = f]
      have iw: "IndexFile E f w1 = (r2, w2)" and iv: "IndexFile ?E f v1 = (r2, v2)"
        and rel2: "same_upto_time w2 v2"
        by (simp_all add: r2_def w2_def v2_def prod_eq_iff)
      show ?thesis
      proof (cases r2)
        case err: (Inl err)
        from rel2 have "same_upto_time (w2\<lparr>logged := logged w2 @ [FailedToIndex ?p err]\<rparr>)
            (v2\<lparr>logged := logged v2 @ [FailedToIndex ?p err]\<rparr>)"
          by (rule same_upto_time_logged)
        from Cons.IH [OF this] gw gv doc False iw iv err show ?thesis by simp
      next
        case n: (Inr n)
        from Cons.IH [OF rel2] gw gv doc False iw iv n show ?thesis by simp
      qed
    qed
  qed
qed

lemma remove_loop_rel:
  "same_upto_time w v \<Longrightarrow>
   fst (remove_loop (E\<lparr>now := clk\<rparr>) ps stats v) = fst (remove_loop E ps stats w) \<and>
   same_upto_time (snd (remove_loop E ps stats w))
     (snd (remove_loop (E\<lparr>now := clk\<rparr>) ps stats v))"
proof (induction ps arbitrary: stats w v)
  case Nil
  then show ?case by simp
next
  case (Cons p ps)
  let ?E = "E\<lparr>now := clk\<rparr>"
  define r where "r = fst (RemoveFile E p w)"
  define w1 where "w1 = snd (RemoveFile E p w)"
  define v1 where "v1 = snd (RemoveFile E p v)"
  from RemoveFile_rel [OF Cons.prems, of E p]
  have rw: "RemoveFile E p w = (r, w1)" and rv: "RemoveFile ?E p v = (r, v1)"
    and r1: "same_upto_time w1 v1"
    by (simp_all add: r_def w1_def v1_def RemoveFile_now prod_eq_iff)
  show ?case
  proof (cases r)
    case err: (Inl err)
    from r1 have "same_upto_time (w1\<lparr>logged := logged w1 @ [FailedToRemove p err]\<rparr>)
        (v1\<lparr>logged := logged v1 @ [FailedToRemove p err]\<rparr>)"
      by (rule same_upto_time_logged)
    from Cons.IH [OF this] rw rv err show ?thesis by simp
  next
    case u: (Inr u)
    from Cons.IH [OF r1] rw rv u show ?thesis by simp
  qed
qed
lemma IndexAll_clock:
  "outcome (fst (IndexAll (E\<lparr>now := clk\<rparr>) w)) = outcome (fst (IndexAll E w)) \<and>
   same_upto_time (snd (IndexAll E w)) (snd (IndexAll (E\<lparr>now := clk\<rparr>) w))"
proof (cases "Scan E")
  case (Inl err)
  then show ?thesis by (simp add: IndexAll_def same_upto_time_refl)
next
  case scan: (Inr fs)
  let ?E = "E\<lparr>now := clk\<rparr>"
  define files where "files = fst fs"
  define skipped where "skipped = snd fs"
  from scan have scan: "Scan E = Inr (files, skipped)" "Scan ?E = Inr (files, skipped)"
    by (simp_all add: files_def skipped_def)
  define w0 where "w0 = w\<lparr>logged := logged w @ map Skipped skipped\<rparr>"
  define stats0 where "stats0 = \<lparr>FilesIndexed = 0, FilesSkipped = length skipped,
     ChunksCreated = 0, FilesRemoved = 0, Duration = 0\<rparr>"
  define l where "l = fst (ListDocuments E w0)"
  define w1 where "w1 = snd (ListDocuments E w0)"
  have list: "ListDocuments E w0 = (l, w1)" "ListDocuments ?E w0 = (l, w1)"
    by (simp_all add: l_def w1_def ListDocuments_now)
  show ?thesis
  proof (cases l)
    case (Inl err)
    with scan list show ?thesis
      by (simp add: IndexAll_def Let_def w0_def [symmetric] same_upto_time_refl)
  next
    case docs: (Inr docs)
    define L where "L = fst (index_loop E files stats0 (remdups docs) w1)"
    define w2 where "w2 = snd (index_loop E files stats0 (remdups docs) w1)"
    define v2 where "v2 = snd (index_loop ?E files stats0 (remdups docs) w1)"
    from index_loop_rel [OF same_upto_time_refl [of w1], where E = E and clk = clk
       and files = files and stats = stats0 and ex = "remdups docs"]
    have loop: "index_loop E files stats0 (remdups docs) w1 = (L, w2)"
      "index_loop ?E files stats0 (remdups docs) w1 = (L, v2)"
      and r2: "same_upto_time w2 v2"
      by (simp_all add: L_def w2_def v2_def prod_eq_iff)
    show ?thesis
    proof (cases L)
      case (Inl err)
      with scan list docs loop r2 show ?thesis
        by (simp add: IndexAll_def Let_def w0_def [symmetric] stats0_def [symmetric])
    next
      case r: (Inr r)
      define stats2 where "stats2 = fst r"
      define ex2 where "ex2 = snd r"
      from r have r': "L = Inr (stats2, ex2)" by (simp add: stats2_def ex2_def)
      define ps where "ps = range_order (pick E) (length ex2) ex2"
      define stats3 where "stats3 = fst (remove_loop E ps stats2 w2)"
      define w3 where "w3 = snd (remove_loop E ps stats2 w2)"
      define v3 where "v3 = snd (remove_loop ?E ps stats2 v2)"
      from remove_loop_rel [OF r2, where E = E and clk = clk and ps = ps and stats = stats2]
      have rem: "remove_loop E ps stats2 w2 = (stats3, w3)"
        "remove_loop ?E ps stats2 v2 = (stats3, v3)"
        and r3: "same_upto_time w3 v3"
        by (simp_all add: stats3_def w3_def v3_def prod_eq_iff)
      from scan list docs loop r' rem r3 show ?thesis
        by (simp add: IndexAll_def Let_def w0_def [symmetric] stats0_def [symmetric]
              ps_def [symmetric] outcome_def counters_def)
    qed
  qed
qed

text \<open>
  C6, amended. \<open>IndexAll\<close> processes the files in the order in which the scanner returned
  them: the \<open>GetDocument\<close> calls of a run are those of the scanned files, in the order
  of the scan (all of them when the run returns its statistics, the first ones when it
  returns an error). Two runs on the same scan and store in which Go enumerates the map of
  vanished paths in the same order make the same calls in the same order, with the same
  outcomes, whatever the clock reads: they return the same error or the same counters and
  leave the same documents and the same chunks up to their time stamps. The removal phase
  visits the vanished paths in the order in which Go enumerates a map, which is not
  specified: in runs where no call fails, two runs on the same scan and store that differ
  in that order and in what the clock reads return the same counters, leave the same
  documents and the same chunks up to their time stamps, and make the same calls up to the
  order in which the vanished paths are removed.
\<close>

theorem IndexAll_processing_order:
  "(Scan E = Inr (files, skipped) \<longrightarrow>
      (\<exists>n. filter is_get (map fst (new_calls w (snd (IndexAll E w)))) =
              map (\<lambda>f. OpGetDocument (File_Path f)) (take n files) \<and>
            (isl (fst (IndexAll E w)) \<or> n = length files))) \<and>
   (outcome (fst (IndexAll (E\<lparr>now := clk\<rparr>) w)) = outcome (fst (IndexAll E w)) \<and>
    calls (snd (IndexAll (E\<lparr>now := clk\<rparr>) w)) = calls (snd (IndexAll E w)) \<and>
    documents (snd (IndexAll (E\<lparr>now := clk\<rparr>) w)) = documents (snd (IndexAll E w)) \<and>
    untimed_chunks (chunks (snd (IndexAll (E\<lparr>now := clk\<rparr>) w))) =
      untimed_chunks (chunks (snd (IndexAll E w)))) \<and>
   ((\<forall>n c. \<not> fails E n c) \<longrightarrow>
      outcome (fst (IndexAll (E\<lparr>pick := pk, now := clk\<rparr>) w)) = outcome (fst (IndexAll E w)) \<and>
      documents (snd (IndexAll (E\<lparr>pick := pk, now := clk\<rparr>) w)) =
        documents (snd (IndexAll E w)) \<and>
      untimed_chunks (chunks (snd (IndexAll (E\<lparr>pick := pk, now := clk\<rparr>) w))) =
        untimed_chunks (chunks (snd (IndexAll E w))) \<and>
      (\<exists>common ps ps'.
         new_calls w (snd (IndexAll E w)) = common @ removal_calls ps \<and>
         new_calls w (snd (IndexAll (E\<lparr>pick := pk, now := clk\<rparr>) w)) =
           common @ removal_calls ps' \<and>
         set ps = set ps' \<and> distinct ps \<and> distinct ps'))"
proof (intro conjI impI)
  assume "Scan E = Inr (files, skipped)"
  then show "\<exists>n. filter is_get (map fst (new_calls w (snd (IndexAll E w)))) =
              map (\<lambda>f. OpGetDocument (File_Path f)) (take n files) \<and>
            (isl (fst (IndexAll E w)) \<or> n = length files)"
    by (rule IndexAll_gets)
next
  from IndexAll_clock [where E = E and clk = clk and w = w]
  show "outcome (fst (IndexAll (E\<lparr>now := clk\<rparr>) w)) = outcome (fst (IndexAll E w))"
    "calls (snd (IndexAll (E\<lparr>now := clk\<rparr>) w)) = calls (snd (IndexAll E w))"
    "documents (snd (IndexAll (E\<lparr>now := clk\<rparr>) w)) = documents (snd (IndexAll E w))"
    "untimed_chunks (chunks (snd (IndexAll (E\<lparr>now := clk\<rparr>) w))) =
      untimed_chunks (chunks (snd (IndexAll E w)))"
    by (simp_all add: same_upto_time_def)
next
  assume nofail: "\<forall>n c. \<not> fails E n c"
  let ?E1 = "E\<lparr>now := clk\<rparr>"
  let ?E2 = "E\<lparr>pick := pk, now := clk\<rparr>"
  have e: "?E1\<lparr>pick := pk\<rparr> = ?E2" by simp
  from nofail have "\<forall>n c. \<not> fails ?E1 n c" by simp
  from IndexAll_pick [OF this, where pk = pk and w = w] obtain common ps ps' where
    p1: "fst (IndexAll ?E2 w) = fst (IndexAll ?E1 w)" and
    p2: "chunks (snd (IndexAll ?E2 w)) = chunks (snd (IndexAll ?E1 w))" and
    p3: "documents (snd (IndexAll ?E2 w)) = documents (snd (IndexAll ?E1 w))" and
    p4: "new_calls w (snd (IndexAll ?E1 w)) = common @ removal_calls ps" and
    p5: "new_calls w (snd (IndexAll ?E2 w)) = common @ removal_calls ps'" and
    p6: "set ps = set ps'" "distinct ps" "distinct ps'"
    unfolding e by (elim exE conjE)
  from IndexAll_clock [where E = E and clk = clk and w = w] have
    c1: "outcome (fst (IndexAll ?E1 w)) = outcome (fst (IndexAll E w))" and
    c2: "calls (snd (IndexAll ?E1 w)) = calls (snd (IndexAll E w))" and
    c3: "documents (snd (IndexAll ?E1 w)) = documents (snd (IndexAll E w))" and
    c4: "untimed_chunks (chunks (snd (IndexAll ?E1 w))) =
         untimed_chunks (chunks (snd (IndexAll E w)))"
    by (simp_all add: same_upto_time_def)
  from p1 c1 show "outcome (fst (IndexAll ?E2 w)) = outcome (fst (IndexAll E w))" by simp
  from p3 c3 show "documents (snd (IndexAll ?E2 w)) = documents (snd (IndexAll E w))" by simp
  from p2 c4 show "untimed_chunks (chunks (snd (IndexAll ?E2 w))) =
        untimed_chunks (chunks (snd (IndexAll E w)))" by simp
  from p4 c2 have p4': "new_calls w (snd (IndexAll E w)) = common @ removal_calls ps"
    by (simp add: new_calls_def)
  from p4' p5 p6 show "\<exists>common ps ps'.
         new_calls w (snd (IndexAll E w)) = common @ removal_calls ps \<and>
         new_calls w (snd (IndexAll ?E2 w)) = common @ removal_calls ps' \<and>
         set ps = set ps' \<and> distinct ps \<and> distinct ps'"
    by (intro exI [of _ common] exI [of _ ps] exI [of _ ps'] conjI)
qed

theorem IndexAll_processing_order_witness:
  "Scan (demo_env [demo_file ''b.txt'' ''h3'' ''z''] never first_key) =
     Inr ([demo_file ''b.txt'' ''h3'' ''z''], []) \<and>
   (\<forall>n c. \<not> fails (demo_env [demo_file ''b.txt'' ''h3'' ''z''] never first_key) n c) \<and>
   filter is_get (map fst (new_calls two_file_world
      (snd (IndexAll (demo_env [demo_file ''b.txt'' ''h3'' ''z''] never first_key)
         two_file_world)))) = [OpGetDocument ''b.txt''] \<and>
   fst (IndexAll (demo_env [demo_file ''b.txt'' ''h3'' ''z''] never first_key) two_file_world) =
     Inr \<lparr>FilesIndexed = 1, FilesSkipped = 0, ChunksCreated = 1, FilesRemoved = 2,
          Duration = 10\<rparr> \<and>
   fst (IndexAll ((demo_env [demo_file ''b.txt'' ''h3'' ''z''] never first_key)
          \<lparr>pick := last_key, now := slow_clock\<rparr>) two_file_world) =
     Inr \<lparr>FilesIndexed = 1, FilesSkipped = 0, ChunksCreated = 1, FilesRemoved = 2,
          Duration = 20\<rparr> \<and>
   outcome (fst (IndexAll ((demo_env [demo_file ''b.txt'' ''h3'' ''z''] never first_key)
          \<lparr>pick := last_key, now := slow_clock\<rparr>) two_file_world)) =
   outcome (fst (IndexAll (demo_env [demo_file ''b.txt'' ''h3'' ''z''] never first_key)
          two_file_world)) \<and>
   documents (snd (IndexAll ((demo_env [demo_file ''b.txt'' ''h3'' ''z''] never first_key)
          \<lparr>pick := last_key, now := slow_clock\<rparr>) two_file_world)) =
   documents (snd (IndexAll (demo_env [demo_file ''b.txt'' ''h3'' ''z''] never first_key)
      two_file_world)) \<and>
   untimed_chunks (chunks (snd (IndexAll
      ((demo_env [demo_file ''b.txt'' ''h3'' ''z''] never first_key)
          \<lparr>pick := last_key, now := slow_clock\<rparr>) two_file_world))) =
   untimed_chunks (chunks (snd (IndexAll (demo_env [demo_file ''b.txt'' ''h3'' ''z''] never first_key)
      two_file_world))) \<and>
   calls (snd (IndexAll ((demo_env [demo_file ''b.txt'' ''h3'' ''z''] never first_key)
          \<lparr>now := slow_clock\<rparr>) two_file_world)) =
   calls (snd (IndexAll (demo_env [demo_file ''b.txt'' ''h3'' ''z''] never first_key)
      two_file_world))"
proof -
  let ?E = "demo_env [demo_file ''b.txt'' ''h3'' ''z''] never first_key"
  have h1: "Scan ?E = Inr ([demo_file ''b.txt'' ''h3'' ''z''], [])" by (simp add: demo_env_def)
  have h2: "\<forall>n c. \<not> fails ?E n c" by (simp add: demo_env_def never_def)
  have gets: "filter is_get (map fst (new_calls two_file_world (snd (IndexAll ?E two_file_world)))) =
      [OpGetDocument ''b.txt'']"
    by (simp add: IndexAll_def IndexFile_def RemoveFile_def store_defs demo_defs2 Let_def)
  have d1: "fst (IndexAll ?E two_file_world) =
     Inr \<lparr>FilesIndexed = 1, FilesSkipped = 0, ChunksCreated = 1, FilesRemoved = 2,
          Duration = 10\<rparr>"
    by (simp add: IndexAll_def IndexFile_def RemoveFile_def store_defs demo_defs2 Let_def)
  have d2: "fst (IndexAll (?E\<lparr>pick := last_key, now := slow_clock\<rparr>) two_file_world) =
     Inr \<lparr>FilesIndexed = 1, FilesSkipped = 0, ChunksCreated = 1, FilesRemoved = 2,
          Duration = 20\<rparr>"
    by (simp add: IndexAll_def IndexFile_def RemoveFile_def store_defs demo_defs2 Let_def
          slow_clock_def)
  note T = IndexAll_processing_order
    [where E = ?E and w = two_file_world and pk = last_key and clk = slow_clock]
  note same = T [THEN conjunct2, THEN conjunct2, THEN mp, OF h2]
  note s1 = same [THEN conjunct1]
   and s2 = same [THEN conjunct2, THEN conjunct1]
   and s3 = same [THEN conjunct2, THEN conjunct2, THEN conjunct1]
   and s4 = T [THEN conjunct2, THEN conjunct1, THEN conjunct2, THEN conjunct1]
  show ?thesis by (intro conjI h1 h2 gets d1 d2 s1 s2 s3 s4)
qed

subsection \<open>Indexing twice\<close>

lemma update_list_all:
  "list_all Q al \<Longrightarrow> Q (k, v) \<Longrightarrow> list_all Q (AList.update k v al)"
  by (induction al) auto

lemma fold_update_list_all:
  "list_all Q al \<Longrightarrow> list_all (\<lambda>c. Q (Chunk_ID c, c)) cs \<Longrightarrow>
   list_all Q (fold (\<lambda>c al. AList.update (Chunk_ID c) c al) cs al)"
  by (induction cs arbitrary: al) (simp_all add: update_list_all)

lemma map_of_filter_key:
  "P k \<Longrightarrow> map_of (filter (\<lambda>kd. P (fst kd)) al) k = map_of al k"
  by (induction al) auto

lemma filter_all: "list_all P xs \<Longrightarrow> filter P xs = xs"
  by (induction xs) auto

lemma list_all_filter: "list_all P xs \<Longrightarrow> list_all P (filter Q xs)"
  by (induction xs) auto

lemma settled_calls [simp]: "settled E (w\<lparr>calls := c\<rparr>) f = settled E w f"
  by (simp add: settled_def)

lemma settled_logged [simp]: "settled E (w\<lparr>logged := l\<rparr>) f = settled E w f"
  by (simp add: settled_def)

lemma store_chunks_path:
  assumes "list_all (\<lambda>i. Info_FilePath i = p) infos"
  shows "list_all (\<lambda>c. Chunk_FilePath c = p) (map (store_chunk stamp) (zip infos vs))"
proof -
  have "Chunk_FilePath (store_chunk stamp iv) = p" if "iv \<in> set (zip infos vs)" for iv
  proof -
    from that have "fst iv \<in> set infos" by (metis prod.collapse set_zip_leftD)
    with assms show ?thesis by (simp add: store_chunk_def list_all_iff)
  qed
  then show ?thesis by (simp add: list_all_iff)
qed

lemma IndexFile_settles:
  assumes nofail: "\<forall>n c. \<not> fails E n c"
  shows "settled E (snd (IndexFile E f w)) f"
proof (cases "ChunkWithContext E (File_Path f) (File_Content f) = []")
  case True
  then show ?thesis
    by (simp add: IndexFile_ok [OF nofail] Let_def settled_def list_all_iff)
next
  case False
  then show ?thesis
    by (simp add: IndexFile_ok [OF nofail] Let_def settled_def unchanged_def update_conv')
qed

lemma IndexFile_keeps_settled:
  assumes nofail: "\<forall>n c. \<not> fails E n c"
    and faithful: "\<forall>p c. list_all (\<lambda>i. Info_FilePath i = p) (ChunkWithContext E p c)"
    and g: "settled E w g" and ne: "File_Path g \<noteq> File_Path f"
  shows "settled E (snd (IndexFile E f w)) g"
proof (cases "ChunkWithContext E (File_Path f) (File_Content f) = []")
  case True
  from g show ?thesis
    by (auto simp: IndexFile_ok [OF nofail] Let_def True settled_def list_all_filter)
next
  case False
  let ?infos = "ChunkWithContext E (File_Path f) (File_Content f)"
  let ?cs = "map (store_chunk (now E (length (calls w) + 2)))
               (zip ?infos (map (embed E) (map Info_Content ?infos)))"
  let ?kept = "filter (\<lambda>kc. Chunk_FilePath (snd kc) \<noteq> File_Path f) (chunks w)"
  let ?doc = "\<lparr>Doc_Path = File_Path f, Doc_Hash = File_Hash f,
               Doc_ModTime = File_ModTime f, Doc_ChunkIDs = map Info_ID ?infos\<rparr>"
  have c: "chunks (snd (IndexFile E f w)) =
      fold (\<lambda>c al. AList.update (Chunk_ID c) c al) ?cs ?kept"
    and d: "documents (snd (IndexFile E f w)) = AList.update (File_Path f) ?doc (documents w)"
    using False by (simp_all add: IndexFile_ok [OF nofail] Let_def)
  from faithful have "list_all (\<lambda>i. Info_FilePath i = File_Path f) ?infos" by blast
  then have "list_all (\<lambda>c. Chunk_FilePath c = File_Path f) ?cs" by (rule store_chunks_path)
  with ne have new: "list_all (\<lambda>c. Chunk_FilePath (snd (Chunk_ID c, c)) \<noteq> File_Path g) ?cs"
    by (simp add: list_all_iff)
  have m: "map_of (documents (snd (IndexFile E f w))) (File_Path g) =
           map_of (documents w) (File_Path g)"
    using ne by (simp add: d update_conv')
  from g show ?thesis
    unfolding settled_def m
  proof (elim disjE conjE)
    assume "unchanged (map_of (documents w) (File_Path g)) g"
    then show "unchanged (map_of (documents w) (File_Path g)) g \<or>
      ChunkWithContext E (File_Path g) (File_Content g) = [] \<and>
      list_all (\<lambda>kc. Chunk_FilePath (snd kc) \<noteq> File_Path g) (chunks (snd (IndexFile E f w)))"
      by (rule disjI1)
  next
    assume e: "ChunkWithContext E (File_Path g) (File_Content g) = []"
      and a: "list_all (\<lambda>kc. Chunk_FilePath (snd kc) \<noteq> File_Path g) (chunks w)"
    from a have "list_all (\<lambda>kc. Chunk_FilePath (snd kc) \<noteq> File_Path g) ?kept"
      by (rule list_all_filter)
    from this new have
      "list_all (\<lambda>kc. Chunk_FilePath (snd kc) \<noteq> File_Path g) (chunks (snd (IndexFile E f w)))"
      unfolding c by (rule fold_update_list_all)
    with e show "unchanged (map_of (documents w) (File_Path g)) g \<or>
      ChunkWithContext E (File_Path g) (File_Content g) = [] \<and>
      list_all (\<lambda>kc. Chunk_FilePath (snd kc) \<noteq> File_Path g) (chunks (snd (IndexFile E f w)))"
      by blast
  qed
qed

lemma IndexFile_ok_fst:
  "\<forall>n c. \<not> fails E n c \<Longrightarrow>
   fst (IndexFile E f w) = Inr (length (ChunkWithContext E (File_Path f) (File_Content f)))"
  by (simp add: IndexFile_ok Let_def)

lemma index_loop_settles:
  assumes nofail: "\<forall>n c. \<not> fails E n c"
    and faithful: "\<forall>p c. list_all (\<lambda>i. Info_FilePath i = p) (ChunkWithContext E p c)"
  shows "distinct (map File_Path files) \<Longrightarrow>
     (\<forall>f \<in> set files. settled E (snd (index_loop E files stats ex w)) f) \<and>
     (\<forall>g. settled E w g \<and> File_Path g \<notin> File_Path ` set files \<longrightarrow>
          settled E (snd (index_loop E files stats ex w)) g)"
proof (induction files arbitrary: stats ex w)
  case Nil
  show ?case by simp
next
  case (Cons f files)
  let ?p = "File_Path f"
  let ?w1 = "w\<lparr>calls := calls w @ [(OpGetDocument ?p, True)]\<rparr>"
  let ?same = "unchanged (map_of (documents w) ?p) f"
  note g = GetDocument_ok [OF nofail, of ?p w]
  from Cons.prems have d: "distinct (map File_Path files)" and
    fresh: "?p \<notin> File_Path ` set files"
    by simp_all
  define w2 where "w2 = (if ?same then ?w1 else snd (IndexFile E f ?w1))"
  define stats1 where "stats1 = (if ?same then stats
     else stats\<lparr>FilesIndexed := FilesIndexed stats + 1,
                ChunksCreated := ChunksCreated stats + projr (fst (IndexFile E f ?w1))\<rparr>)"
  define ex1 where "ex1 = removeAll ?p ex"
  have e: "index_loop E (f # files) stats ex w = index_loop E files stats1 ex1 w2"
  proof (cases ?same)
    case True
    then show ?thesis by (simp add: g w2_def stats1_def ex1_def)
  next
    case False
    then show ?thesis
      by (simp add: g w2_def stats1_def ex1_def case_prod_beta IndexFile_ok_fst [OF nofail])
  qed
  have sf: "settled E w2 f"
  proof (cases ?same)
    case True
    then show ?thesis by (simp add: w2_def settled_def)
  next
    case False
    then show ?thesis by (simp add: w2_def IndexFile_settles [OF nofail])
  qed
  have sg: "settled E w2 g" if a: "settled E w g" and b: "File_Path g \<noteq> ?p" for g
  proof (cases ?same)
    case True
    with a show ?thesis by (simp add: w2_def)
  next
    case False
    from a have "settled E ?w1 g" by simp
    from IndexFile_keeps_settled [OF nofail faithful this b] False
    show ?thesis by (simp add: w2_def)
  qed
  from Cons.IH [OF d, of stats1 ex1 w2] have
    ih1: "\<forall>h \<in> set files. settled E (snd (index_loop E files stats1 ex1 w2)) h" and
    ih2: "\<forall>g. settled E w2 g \<and> File_Path g \<notin> File_Path ` set files \<longrightarrow>
              settled E (snd (index_loop E files stats1 ex1 w2)) g"
    by (rule conjunct1, rule conjunct2)
  show ?case
    unfolding e
  proof (intro conjI ballI allI impI)
    fix h assume "h \<in> set (f # files)"
    then consider "h = f" | "h \<in> set files" by auto
    then show "settled E (snd (index_loop E files stats1 ex1 w2)) h"
    proof cases
      case 1
      with sf fresh ih2 show ?thesis by simp
    next
      case 2
      with ih1 show ?thesis by simp
    qed
  next
    fix g assume a: "settled E w g \<and> File_Path g \<notin> File_Path ` set (f # files)"
    then have "settled E w2 g" by (intro sg) simp_all
    moreover from a have "File_Path g \<notin> File_Path ` set files" by simp
    ultimately show "settled E (snd (index_loop E files stats1 ex1 w2)) g" using ih2 by simp
  qed
qed

lemma steps_calls: "list_all (\<lambda>e. Q (fst e)) cs \<Longrightarrow> steps Q w (w\<lparr>calls := calls w @ cs\<rparr>)"
  by (simp add: steps_def new_calls_def)

lemma settled_after_removal:
  assumes "settled E v f" and "File_Path f \<notin> set ps"
  shows "settled E
     (v\<lparr>calls := c,
        chunks := filter (\<lambda>kc. Chunk_FilePath (snd kc) \<notin> set ps) (chunks v),
        documents := filter (\<lambda>kd. fst kd \<notin> set ps) (documents v)\<rparr>) f"
proof -
  have m: "map_of (filter (\<lambda>kd. fst kd \<notin> set ps) (documents v)) (File_Path f) =
           map_of (documents v) (File_Path f)"
    using assms(2) by (rule map_of_filter_key [of "\<lambda>k. k \<notin> set ps"])
  from assms(1) show ?thesis
    by (auto simp: settled_def m list_all_filter)
qed

lemma IndexAll_settles:
  assumes scan: "Scan E = Inr (files, skipped)"
    and nofail: "\<forall>n c. \<not> fails E n c"
    and faithful: "\<forall>p c. list_all (\<lambda>i. Info_FilePath i = p) (ChunkWithContext E p c)"
    and dist: "distinct (map File_Path files)"
  shows "(\<forall>f \<in> set files. settled E (snd (IndexAll E w)) f) \<and>
         fst ` set (documents (snd (IndexAll E w))) \<subseteq> File_Path ` set files"
proof -
  define w0 where "w0 = w\<lparr>logged := logged w @ map Skipped skipped\<rparr>"
  define w1 where "w1 = w0\<lparr>calls := calls w0 @ [(OpListDocuments, True)]\<rparr>"
  define stats0 where "stats0 = \<lparr>FilesIndexed = 0, FilesSkipped = length skipped,
     ChunksCreated = 0, FilesRemoved = 0, Duration = 0\<rparr>"
  define ex0 where "ex0 = remdups (map fst (documents w))"
  define ex2 where "ex2 = filter (\<lambda>k. k \<notin> File_Path ` set files) ex0"
  define ps where "ps = range_order (pick E) (length ex2) ex2"
  have l: "ListDocuments E w0 = (Inr (map fst (documents w)), w1)"
    using nofail by (simp add: store_defs w1_def w0_def)
  from index_loop_ok [OF nofail, of files stats0 ex0 w1] obtain stats2 w2 where
    loop: "index_loop E files stats0 ex0 w1 = (Inr (stats2, ex2), w2)" and
    k2: "fst ` set (documents w2) \<subseteq> fst ` set (documents w1) \<union> File_Path ` set files"
    unfolding ex2_def by blast
  have d2: "distinct ex2" by (simp add: ex2_def ex0_def)
  from range_order_perm [OF d2, of "length ex2" "pick E"] have sp: "set ps = set ex2"
    by (simp add: ps_def)
  have set2: "set ex2 = fst ` set (documents w) - File_Path ` set files"
    by (auto simp: ex2_def ex0_def)
  have run: "snd (IndexAll E w) =
        w2\<lparr>calls := calls w2 @ removal_calls ps,
            chunks := filter (\<lambda>kc. Chunk_FilePath (snd kc) \<notin> set ps) (chunks w2),
            documents := filter (\<lambda>kd. fst kd \<notin> set ps) (documents w2)\<rparr>"
    using scan l loop
    by (simp add: IndexAll_def Let_def w0_def [symmetric] stats0_def [symmetric]
          ex0_def [symmetric] ps_def [symmetric] remove_loop_ok [OF nofail]
          removal_calls_def [symmetric])
  from index_loop_settles [OF nofail faithful dist, of stats0 ex0 w1] loop
  have s2: "\<forall>f \<in> set files. settled E w2 f" by simp
  have a: "settled E (snd (IndexAll E w)) f" if "f \<in> set files" for f
  proof -
    from that s2 have "settled E w2 f" by simp
    moreover from that sp set2 have "File_Path f \<notin> set ps" by simp
    ultimately show ?thesis unfolding run by (rule settled_after_removal)
  qed
  from k2 have "fst ` set (documents w2) \<subseteq> fst ` set (documents w) \<union> File_Path ` set files"
    by (simp add: w1_def w0_def)
  with sp set2 have b: "fst ` set (documents (snd (IndexAll E w))) \<subseteq> File_Path ` set files"
    unfolding run by auto
  from a b show ?thesis by blast
qed

lemma index_loop_unchanged:
  "\<forall>f \<in> set files. unchanged (map_of (documents w) (File_Path f)) f \<Longrightarrow>
   steps read_call w (snd (index_loop E files stats ex w)) \<and>
   chunks (snd (index_loop E files stats ex w)) = chunks w \<and>
   documents (snd (index_loop E files stats ex w)) = documents w \<and>
   logged (snd (index_loop E files stats ex w)) = logged w \<and>
   (isl (fst (index_loop E files stats ex w)) \<or>
    fst (index_loop E files stats ex w) =
      Inr (stats, filter (\<lambda>k. k \<notin> File_Path ` set files) ex))"
proof (induction files arbitrary: ex w)
  case Nil
  show ?case by (simp add: steps_refl)
next
  case (Cons f files)
  let ?p = "File_Path f"
  let ?b = "\<not> fails E (length (calls w)) (OpGetDocument ?p)"
  let ?w1 = "w\<lparr>calls := calls w @ [(OpGetDocument ?p, ?b)]\<rparr>"
  have s1: "steps read_call w ?w1" by (rule steps_calls) simp
  from Cons.prems have same: "unchanged (map_of (documents w) ?p) f" and
    rest: "\<forall>h \<in> set files. unchanged (map_of (documents ?w1) (File_Path h)) h"
    by simp_all
  show ?case
  proof (cases ?b)
    case False
    then have "index_loop E (f # files) stats ex w =
        (Inl (Wrapped (''failed to get document '' @ ?p) StoreError), ?w1)"
      by (simp add: store_defs)
    with s1 show ?thesis by simp
  next
    case True
    then have "GetDocument E ?p w = (Inr (map_of (documents w) ?p), ?w1)"
      by (simp add: store_defs)
    with same have e: "index_loop E (f # files) stats ex w =
        index_loop E files stats (removeAll ?p ex) ?w1"
      by simp
    from Cons.IH [OF rest, of "removeAll ?p ex"] have
      s: "steps read_call ?w1 (snd (index_loop E files stats (removeAll ?p ex) ?w1))" and
      c: "chunks (snd (index_loop E files stats (removeAll ?p ex) ?w1)) = chunks ?w1" and
      d: "documents (snd (index_loop E files stats (removeAll ?p ex) ?w1)) = documents ?w1" and
      l: "logged (snd (index_loop E files stats (removeAll ?p ex) ?w1)) = logged ?w1" and
      r: "isl (fst (index_loop E files stats (removeAll ?p ex) ?w1)) \<or>
          fst (index_loop E files stats (removeAll ?p ex) ?w1) =
            Inr (stats, filter (\<lambda>k. k \<notin> File_Path ` set files) (removeAll ?p ex))"
      by simp_all
    from s1 s have s': "steps read_call w (snd (index_loop E files stats (removeAll ?p ex) ?w1))"
      by (rule steps_trans)
    from r have r': "isl (fst (index_loop E files stats (removeAll ?p ex) ?w1)) \<or>
          fst (index_loop E files stats (removeAll ?p ex) ?w1) =
            Inr (stats, filter (\<lambda>k. k \<notin> File_Path ` set (f # files)) ex)"
      by (simp add: filter_removeAll_paths)
    from c d l have "chunks (snd (index_loop E files stats (removeAll ?p ex) ?w1)) = chunks w"
      "documents (snd (index_loop E files stats (removeAll ?p ex) ?w1)) = documents w"
      "logged (snd (index_loop E files stats (removeAll ?p ex) ?w1)) = logged w"
      by simp_all
    with s' r' show ?thesis unfolding e by (intro conjI)
  qed
qed

lemma IndexAll_unchanged:
  assumes scan: "Scan E = Inr (files, skipped)"
    and same: "\<forall>f \<in> set files. unchanged (map_of (documents w) (File_Path f)) f"
    and keys: "fst ` set (documents w) \<subseteq> File_Path ` set files"
  shows "chunks (snd (IndexAll E w)) = chunks w \<and>
         documents (snd (IndexAll E w)) = documents w \<and>
         disk (snd (IndexAll E w)) = disk w \<and>
         list_all (\<lambda>e. read_call (fst e)) (new_calls w (snd (IndexAll E w))) \<and>
         (isl (fst (IndexAll E w)) \<or>
          (FilesIndexed (projr (fst (IndexAll E w))) = 0 \<and>
           ChunksCreated (projr (fst (IndexAll E w))) = 0 \<and>
           FilesRemoved (projr (fst (IndexAll E w))) = 0))"
proof -
  define w0 where "w0 = w\<lparr>logged := logged w @ map Skipped skipped\<rparr>"
  define b where "b = (\<not> fails E (length (calls w)) OpListDocuments)"
  define w1 where "w1 = w0\<lparr>calls := calls w0 @ [(OpListDocuments, b)]\<rparr>"
  define stats0 where "stats0 = \<lparr>FilesIndexed = 0, FilesSkipped = length skipped,
     ChunksCreated = 0, FilesRemoved = 0, Duration = 0\<rparr>"
  define ex0 where "ex0 = remdups (map fst (documents w))"
  define L where "L = index_loop E files stats0 ex0 w1"
  have s1: "steps read_call w w1" by (simp add: steps_def new_calls_def w1_def w0_def)
  show ?thesis
  proof (cases b)
    case False
    then have "IndexAll E w = (Inl (Wrapped ''failed to list documents'' StoreError), w1)"
      using scan
      by (simp add: IndexAll_def Let_def store_defs w1_def w0_def b_def)
    moreover from s1 have "disk w1 = disk w" "list_all (\<lambda>e. read_call (fst e)) (new_calls w w1)"
      by (simp_all add: steps_def)
    moreover have "chunks w1 = chunks w" "documents w1 = documents w"
      by (simp_all add: w1_def w0_def)
    ultimately show ?thesis by simp
  next
    case True
    then have l: "ListDocuments E w0 = (Inr (map fst (documents w)), w1)"
      by (simp add: store_defs w1_def w0_def b_def)
    from same have "\<forall>f \<in> set files. unchanged (map_of (documents w1) (File_Path f)) f"
      by (simp add: w1_def w0_def)
    from index_loop_unchanged [OF this, of E stats0 ex0] have
      s: "steps read_call w1 (snd L)" and
      c: "chunks (snd L) = chunks w1" and d: "documents (snd L) = documents w1" and
      r: "isl (fst L) \<or> fst L = Inr (stats0, filter (\<lambda>k. k \<notin> File_Path ` set files) ex0)"
      unfolding L_def by simp_all
    from keys have "filter (\<lambda>k. k \<notin> File_Path ` set files) ex0 = []"
      by (auto simp: ex0_def filter_empty_conv)
    with r have r': "isl (fst L) \<or> fst L = Inr (stats0, [])" by simp
    from s1 s have "steps read_call w (snd L)" by (rule steps_trans)
    then have f1: "disk (snd L) = disk w"
      "list_all (\<lambda>e. read_call (fst e)) (new_calls w (snd L))"
      by (simp_all add: steps_def)
    from c d have f2: "chunks (snd L) = chunks w" "documents (snd L) = documents w"
      by (simp_all add: w1_def w0_def)
    from r' show ?thesis
    proof
      assume "isl (fst L)"
      then have "IndexAll E w = (Inl (projl (fst L)), snd L)"
        using scan l
        by (simp add: IndexAll_def Let_def w0_def [symmetric] stats0_def [symmetric]
              ex0_def [symmetric] L_def [symmetric] case_prod_beta sum.case_eq_if)
      with f1 f2 show ?thesis by simp
    next
      assume "fst L = Inr (stats0, [])"
      then have "IndexAll E w =
          (Inr (stats0\<lparr>Duration := now E (length (calls (snd L))) - now E (length (calls w))\<rparr>),
           snd L)"
        using scan l
        by (simp add: IndexAll_def Let_def w0_def [symmetric] stats0_def [symmetric]
              ex0_def [symmetric] L_def [symmetric] case_prod_beta)
      with f1 f2 show ?thesis by (simp add: stats0_def)
    qed
  qed
qed

subsection \<open>Runs that log no failed file\<close>

lemma never_nofail: "\<forall>n c. \<not> fails (E\<lparr>fails := never\<rparr>) n c"
  by (simp add: never_def)

lemma GetDocument_agree:
  "GetDocument E p w = (Inr d, w') \<Longrightarrow> GetDocument (E\<lparr>fails := never\<rparr>) p w = (Inr d, w')"
  by (simp add: store_defs never_def split: if_splits)

lemma ListDocuments_agree:
  "ListDocuments E w = (Inr d, w') \<Longrightarrow> ListDocuments (E\<lparr>fails := never\<rparr>) w = (Inr d, w')"
  by (simp add: store_defs never_def split: if_splits)

lemma IndexFile_agree:
  "IndexFile E f w = (Inr n, w') \<Longrightarrow> IndexFile (E\<lparr>fails := never\<rparr>) f w = (Inr n, w')"
  by (simp add: IndexFile_def store_defs never_def Let_def split: if_splits)

lemma RemoveFile_agree:
  "RemoveFile E p w = (Inr u, w') \<Longrightarrow> RemoveFile (E\<lparr>fails := never\<rparr>) p w = (Inr u, w')"
  by (simp add: RemoveFile_def store_defs never_def split: if_splits)

lemma index_loop_agree:
  "index_loop E files stats ex w = (Inr r, w') \<Longrightarrow>
   filter failed_line (new_logged w w') = [] \<Longrightarrow>
   index_loop (E\<lparr>fails := never\<rparr>) files stats ex w = (Inr r, w')"
proof (induction files arbitrary: stats ex w)
  case Nil
  then show ?case by simp
next
  case (Cons f files)
  let ?E = "E\<lparr>fails := never\<rparr>"
  let ?p = "File_Path f"
  define g where "g = fst (GetDocument E ?p w)"
  define w1 where "w1 = snd (GetDocument E ?p w)"
  have get: "GetDocument E ?p w = (g, w1)" by (simp add: g_def w1_def)
  have l1: "logged w1 = logged w" unfolding w1_def by (simp add: GetDocument_effect)
  show ?case
  proof (cases g)
    case (Inl err)
    with get Cons.prems(1) show ?thesis by simp
  next
    case doc: (Inr doc)
    with get have get': "GetDocument ?E ?p w = (Inr doc, w1)" by (simp add: GetDocument_agree)
    show ?thesis
    proof (cases "unchanged doc f")
      case True
      with Cons.prems(1) get doc
      have run: "index_loop E files stats (removeAll ?p ex) w1 = (Inr r, w')" by simp
      from Cons.prems(2) l1 have "filter failed_line (new_logged w1 w') = []"
        by (simp add: new_logged_def)
      from Cons.IH [OF run this] get' True show ?thesis by simp
    next
      case False
      define r2 where "r2 = fst (IndexFile E f w1)"
      define w2 where "w2 = snd (IndexFile E f w1)"
      have idx: "IndexFile E f w1 = (r2, w2)" by (simp add: r2_def w2_def)
      from IndexFile_effect [OF idx] have l2: "logged w2 = logged w1" by (elim exE conjE)
      show ?thesis
      proof (cases r2)
        case err: (Inl err)
        define w2' where "w2' = w2\<lparr>logged := logged w2 @ [FailedToIndex ?p err]\<rparr>"
        from Cons.prems(1) get doc False idx err
        have "index_loop E files stats ex w2' = (Inr (fst r, snd r), w')"
          by (simp add: w2'_def)
        from index_loop_counts [OF this] obtain ls where "logged w' = logged w2' @ ls"
          by (elim exE conjE)
        then have "new_logged w w' = FailedToIndex ?p err # ls"
          by (simp add: new_logged_def w2'_def l1 l2)
        with Cons.prems(2) show ?thesis by simp
      next
        case n: (Inr n)
        with idx have idx': "IndexFile ?E f w1 = (Inr n, w2)" by (simp add: IndexFile_agree)
        from Cons.prems(1) get doc False idx n
        have run: "index_loop E files
            (stats\<lparr>FilesIndexed := FilesIndexed stats + 1,
                   ChunksCreated := ChunksCreated stats + n\<rparr>)
            (removeAll ?p ex) w2 = (Inr r, w')"
          by simp
        from Cons.prems(2) l1 l2 have "filter failed_line (new_logged w2 w') = []"
          by (simp add: new_logged_def)
        from Cons.IH [OF run this] get' False idx' show ?thesis by simp
      qed
    qed
  qed
qed

lemma remove_loop_agree:
  "remove_loop E ps stats w = (stats', w') \<Longrightarrow>
   filter failed_line (new_logged w w') = [] \<Longrightarrow>
   remove_loop (E\<lparr>fails := never\<rparr>) ps stats w = (stats', w')"
proof (induction ps arbitrary: stats w)
  case Nil
  then show ?case by simp
next
  case (Cons p ps)
  let ?E = "E\<lparr>fails := never\<rparr>"
  define r1 where "r1 = fst (RemoveFile E p w)"
  define w1 where "w1 = snd (RemoveFile E p w)"
  have rm: "RemoveFile E p w = (r1, w1)" by (simp add: r1_def w1_def)
  from RemoveFile_effect [of E p w] have l1: "logged w1 = logged w"
    unfolding w1_def by (elim exE conjE)
  show ?case
  proof (cases r1)
    case err: (Inl err)
    define w1' where "w1' = w1\<lparr>logged := logged w1 @ [FailedToRemove p err]\<rparr>"
    from Cons.prems(1) rm err have "remove_loop E ps stats w1' = (stats', w')"
      by (simp add: w1'_def)
    from remove_loop_counts [OF this] obtain ls where "logged w' = logged w1' @ ls"
      by (elim exE conjE)
    then have "new_logged w w' = FailedToRemove p err # ls"
      by (simp add: new_logged_def w1'_def l1)
    with Cons.prems(2) show ?thesis by simp
  next
    case u: (Inr u)
    with rm have rm': "RemoveFile ?E p w = (Inr u, w1)" by (simp add: RemoveFile_agree)
    from Cons.prems(1) rm u
    have run: "remove_loop E ps (stats\<lparr>FilesRemoved := FilesRemoved stats + 1\<rparr>) w1 = (stats', w')"
      by simp
    from Cons.prems(2) l1 have "filter failed_line (new_logged w1 w') = []"
      by (simp add: new_logged_def)
    from Cons.IH [OF run this] rm' show ?thesis by simp
  qed
qed
lemma IndexAll_agree:
  assumes run: "IndexAll E w = (Inr st, w')"
    and clean: "filter failed_line (new_logged w w') = []"
  shows "IndexAll (E\<lparr>fails := never\<rparr>) w = (Inr st, w')"
proof (cases "Scan E")
  case (Inl err)
  with run show ?thesis by (simp add: IndexAll_def)
next
  case scan: (Inr fs)
  let ?E = "E\<lparr>fails := never\<rparr>"
  define files where "files = fst fs"
  define skipped where "skipped = snd fs"
  from scan have scan': "Scan E = Inr (files, skipped)" by (simp add: files_def skipped_def)
  define w0 where "w0 = w\<lparr>logged := logged w @ map Skipped skipped\<rparr>"
  define stats0 where "stats0 = \<lparr>FilesIndexed = 0, FilesSkipped = length skipped,
     ChunksCreated = 0, FilesRemoved = 0, Duration = 0\<rparr>"
  define l where "l = fst (ListDocuments E w0)"
  define w1 where "w1 = snd (ListDocuments E w0)"
  have list: "ListDocuments E w0 = (l, w1)" by (simp add: l_def w1_def)
  have l1: "logged w1 = logged w @ map Skipped skipped"
    by (simp add: w1_def w0_def store_defs)
  show ?thesis
  proof (cases l)
    case (Inl err)
    with run scan' list show ?thesis
      by (simp add: IndexAll_def Let_def w0_def [symmetric])
  next
    case docs: (Inr docs)
    with list have list': "ListDocuments ?E w0 = (Inr docs, w1)"
      by (simp add: ListDocuments_agree)
    define L where "L = fst (index_loop E files stats0 (remdups docs) w1)"
    define w2 where "w2 = snd (index_loop E files stats0 (remdups docs) w1)"
    have loop: "index_loop E files stats0 (remdups docs) w1 = (L, w2)"
      by (simp add: L_def w2_def)
    show ?thesis
    proof (cases L)
      case (Inl err)
      with run scan' list docs loop show ?thesis
        by (simp add: IndexAll_def Let_def w0_def [symmetric] stats0_def [symmetric])
    next
      case r: (Inr r)
      define stats2 where "stats2 = fst r"
      define ex2 where "ex2 = snd r"
      from loop r have loop2: "index_loop E files stats0 (remdups docs) w1 = (Inr (stats2, ex2), w2)"
        by (simp add: stats2_def ex2_def)
      define ps where "ps = range_order (pick E) (length ex2) ex2"
      define stats3 where "stats3 = fst (remove_loop E ps stats2 w2)"
      define w3 where "w3 = snd (remove_loop E ps stats2 w2)"
      have rem: "remove_loop E ps stats2 w2 = (stats3, w3)" by (simp add: stats3_def w3_def)
      from run scan' list docs loop2 rem
      have res: "st = stats3\<lparr>Duration := now E (length (calls w3)) - now E (length (calls w))\<rparr>"
        and w': "w' = w3"
        by (auto simp: IndexAll_def Let_def w0_def [symmetric] stats0_def [symmetric]
              ps_def [symmetric])
      from index_loop_counts [OF loop2] obtain ls where l2: "logged w2 = logged w1 @ ls"
        by (elim exE conjE)
      from remove_loop_counts [OF rem] obtain ls' where l3: "logged w3 = logged w2 @ ls'"
        by (elim exE conjE)
      from clean have c: "filter failed_line ls = []" "filter failed_line ls' = []"
        by (simp_all add: new_logged_def w' l3 l2 l1)
      from l2 c have "filter failed_line (new_logged w1 w2) = []" by (simp add: new_logged_def)
      from index_loop_agree [OF loop2 this]
      have loop': "index_loop ?E files stats0 (remdups docs) w1 = (Inr (stats2, ex2), w2)" .
      from l3 c have "filter failed_line (new_logged w2 w3) = []" by (simp add: new_logged_def)
      from remove_loop_agree [OF rem this]
      have rem': "remove_loop ?E ps stats2 w2 = (stats3, w3)" .
      from scan' list' loop' rem' res w' show ?thesis
        by (simp add: IndexAll_def Let_def w0_def [symmetric] stats0_def [symmetric]
              ps_def [symmetric])
    qed
  qed
qed

lemma settled_never [simp]: "settled (E\<lparr>fails := never\<rparr>) w f = settled E w f"
  by (simp add: settled_def)

lemma first_run_settles:
  assumes scan: "Scan E = Inr (files, skipped)"
    and faithful: "\<forall>p c. list_all (\<lambda>i. Info_FilePath i = p) (ChunkWithContext E p c)"
    and dist: "distinct (map File_Path files)"
    and run: "IndexAll E v = (Inr st, w1)"
    and clean: "filter failed_line (new_logged v w1) = []"
  shows "(\<forall>f \<in> set files. settled E w1 f) \<and>
         fst ` set (documents w1) \<subseteq> File_Path ` set files"
proof -
  let ?E = "E\<lparr>fails := never\<rparr>"
  from IndexAll_agree [OF run clean] have w1: "snd (IndexAll ?E v) = w1" by simp
  from scan have scan': "Scan ?E = Inr (files, skipped)" by simp
  from faithful
  have faithful': "\<forall>p c. list_all (\<lambda>i. Info_FilePath i = p) (ChunkWithContext ?E p c)" by simp
  from IndexAll_settles [OF scan' never_nofail faithful' dist, of v] show ?thesis
    by (simp add: w1)
qed
lemma IndexFile_no_chunks:
  assumes "ChunkWithContext E (File_Path f) (File_Content f) = []"
    and "list_all (\<lambda>kc. Chunk_FilePath (snd kc) \<noteq> File_Path f) (chunks w)"
  shows "IndexFile E f w =
     (if fails E (length (calls w)) (OpDeleteByFile (File_Path f))
      then (Inl (Wrapped ''failed to delete existing chunks'' StoreError),
            w\<lparr>calls := calls w @ [(OpDeleteByFile (File_Path f), False)]\<rparr>)
      else (Inr 0, w\<lparr>calls := calls w @ [(OpDeleteByFile (File_Path f), True)]\<rparr>))"
  using assms(1) filter_all [OF assms(2)] by (simp add: IndexFile_def store_defs)

lemma index_loop_quiet:
  "\<forall>f \<in> set files. settled E w f \<Longrightarrow>
   steps quiet_call w (snd (index_loop E files stats ex w)) \<and>
   chunks (snd (index_loop E files stats ex w)) = chunks w \<and>
   documents (snd (index_loop E files stats ex w)) = documents w \<and>
   (\<exists>ls. logged (snd (index_loop E files stats ex w)) = logged w @ ls \<and>
      (filter failed_line ls = [] \<longrightarrow>
         isl (fst (index_loop E files stats ex w)) \<or>
         (\<exists>stats'. fst (index_loop E files stats ex w) =
            Inr (stats', filter (\<lambda>k. k \<notin> File_Path ` set files) ex))))"
proof (induction files arbitrary: stats ex w)
  case Nil
  show ?case by (simp add: steps_refl)
next
  case (Cons f files)
  let ?p = "File_Path f"
  let ?b = "\<not> fails E (length (calls w)) (OpGetDocument ?p)"
  let ?k = "fails E (Suc (length (calls w))) (OpDeleteByFile ?p)"
  let ?get = "(OpGetDocument ?p, ?b)"
  let ?w1 = "w\<lparr>calls := calls w @ [?get]\<rparr>"
  let ?same = "unchanged (map_of (documents w) ?p) f"
  let ?line = "FailedToIndex ?p (Wrapped ''failed to delete existing chunks'' StoreError)"
  from Cons.prems have sf: "settled E w f" and rest: "\<forall>h \<in> set files. settled E w h"
    by simp_all
  show ?case
  proof (cases ?b)
    case False
    have "steps quiet_call w ?w1" by (rule steps_calls) simp
    moreover from False have "index_loop E (f # files) stats ex w =
        (Inl (Wrapped (''failed to get document '' @ ?p) StoreError), ?w1)"
      by (simp add: store_defs)
    ultimately show ?thesis by simp
  next
    case True
    let ?w1 = "w\<lparr>calls := calls w @ [(OpGetDocument ?p, True)]\<rparr>"
    from True have g: "GetDocument E ?p w = (Inr (map_of (documents w) ?p), ?w1)"
      by (simp add: store_defs)
    define cs0 where "cs0 = (if ?same then [(OpGetDocument ?p, True)]
       else [(OpGetDocument ?p, True), (OpDeleteByFile ?p, \<not> ?k)])"
    define l0 where "l0 = (if \<not> ?same \<and> ?k then [?line] else [])"
    define wx where "wx = w\<lparr>calls := calls w @ cs0, logged := logged w @ l0\<rparr>"
    define sx where "sx = (if ?same \<or> ?k then stats
       else stats\<lparr>FilesIndexed := FilesIndexed stats + 1,
                  ChunksCreated := ChunksCreated stats + 0\<rparr>)"
    define exx where "exx = (if \<not> ?same \<and> ?k then ex else removeAll ?p ex)"
    have e: "index_loop E (f # files) stats ex w = index_loop E files sx exx wx"
    proof (cases ?same)
      case same: True
      with True show ?thesis by (simp add: g wx_def cs0_def l0_def sx_def exx_def)
    next
      case diff: False
      with sf have empty: "ChunkWithContext E ?p (File_Content f) = []" and
        none: "list_all (\<lambda>kc. Chunk_FilePath (snd kc) \<noteq> ?p) (chunks ?w1)"
        by (simp_all add: settled_def)
      note i = IndexFile_no_chunks [OF empty none]
      show ?thesis
      proof (cases ?k)
        case k: True
        with True diff show ?thesis by (simp add: g i wx_def cs0_def l0_def sx_def exx_def)
      next
        case k: False
        with True diff show ?thesis by (simp add: g i wx_def cs0_def l0_def sx_def exx_def)
      qed
    qed
    have "list_all (\<lambda>e. quiet_call (fst e)) cs0" by (simp add: cs0_def)
    then have "steps quiet_call w (w\<lparr>calls := calls w @ cs0\<rparr>)" by (rule steps_calls)
    then have s0: "steps quiet_call w wx" unfolding wx_def by (rule steps_logged)
    from rest have "\<forall>h \<in> set files. settled E wx h" by (simp add: wx_def)
    from Cons.IH [OF this, of sx exx] obtain ls where
      s: "steps quiet_call wx (snd (index_loop E files sx exx wx))" and
      c: "chunks (snd (index_loop E files sx exx wx)) = chunks wx" and
      d: "documents (snd (index_loop E files sx exx wx)) = documents wx" and
      l: "logged (snd (index_loop E files sx exx wx)) = logged wx @ ls" and
      r: "filter failed_line ls = [] \<longrightarrow>
            isl (fst (index_loop E files sx exx wx)) \<or>
            (\<exists>stats'. fst (index_loop E files sx exx wx) =
               Inr (stats', filter (\<lambda>k. k \<notin> File_Path ` set files) exx))"
      by (elim exE conjE)
    from s0 s have s': "steps quiet_call w (snd (index_loop E files sx exx wx))"
      by (rule steps_trans)
    from c d have cd: "chunks (snd (index_loop E files sx exx wx)) = chunks w"
      "documents (snd (index_loop E files sx exx wx)) = documents w"
      by (simp_all add: wx_def)
    from l have l': "logged (snd (index_loop E files sx exx wx)) = logged w @ (l0 @ ls)"
      by (simp add: wx_def)
    have r': "filter failed_line (l0 @ ls) = [] \<longrightarrow>
            isl (fst (index_loop E files sx exx wx)) \<or>
            (\<exists>stats'. fst (index_loop E files sx exx wx) =
               Inr (stats', filter (\<lambda>k. k \<notin> File_Path ` set (f # files)) ex))"
    proof
      assume a: "filter failed_line (l0 @ ls) = []"
      have "\<not> (\<not> ?same \<and> ?k)"
      proof
        assume "\<not> ?same \<and> ?k"
        then have "l0 = [?line]" by (simp add: l0_def)
        with a show False by simp
      qed
      then have "exx = removeAll ?p ex" unfolding exx_def by (rule if_not_P)
      moreover from a have "filter failed_line ls = []" by simp
      ultimately show "isl (fst (index_loop E files sx exx wx)) \<or>
            (\<exists>stats'. fst (index_loop E files sx exx wx) =
               Inr (stats', filter (\<lambda>k. k \<notin> File_Path ` set (f # files)) ex))"
        using r by (simp add: filter_removeAll_paths)
    qed
    from l' r' have "\<exists>ls. logged (snd (index_loop E files sx exx wx)) = logged w @ ls \<and>
      (filter failed_line ls = [] \<longrightarrow>
         isl (fst (index_loop E files sx exx wx)) \<or>
         (\<exists>stats'. fst (index_loop E files sx exx wx) =
            Inr (stats', filter (\<lambda>k. k \<notin> File_Path ` set (f # files)) ex)))"
      by (intro exI [of _ "l0 @ ls"] conjI)
    with s' cd show ?thesis unfolding e by (intro conjI)
  qed
qed

lemma IndexAll_quiet:
  assumes scan: "Scan E = Inr (files, skipped)"
    and settled: "\<forall>f \<in> set files. settled E v f"
    and keys: "fst ` set (documents v) \<subseteq> File_Path ` set files"
    and clean: "filter failed_line (new_logged v (snd (IndexAll E v))) = []"
  shows "chunks (snd (IndexAll E v)) = chunks v \<and>
         documents (snd (IndexAll E v)) = documents v \<and>
         list_all (\<lambda>e. quiet_call (fst e)) (new_calls v (snd (IndexAll E v)))"
proof -
  define w0 where "w0 = v\<lparr>logged := logged v @ map Skipped skipped\<rparr>"
  define b where "b = (\<not> fails E (length (calls v)) OpListDocuments)"
  define w1 where "w1 = w0\<lparr>calls := calls w0 @ [(OpListDocuments, b)]\<rparr>"
  define stats0 where "stats0 = \<lparr>FilesIndexed = 0, FilesSkipped = length skipped,
     ChunksCreated = 0, FilesRemoved = 0, Duration = 0\<rparr>"
  define ex0 where "ex0 = remdups (map fst (documents v))"
  define L where "L = index_loop E files stats0 ex0 w1"
  have s1: "steps quiet_call v w1" by (simp add: steps_def new_calls_def w1_def w0_def)
  show ?thesis
  proof (cases b)
    case False
    then have "IndexAll E v = (Inl (Wrapped ''failed to list documents'' StoreError), w1)"
      using scan
      by (simp add: IndexAll_def Let_def store_defs w1_def w0_def b_def)
    moreover from s1 have "list_all (\<lambda>e. quiet_call (fst e)) (new_calls v w1)"
      by (simp add: steps_def)
    moreover have "chunks w1 = chunks v" "documents w1 = documents v"
      by (simp_all add: w1_def w0_def)
    ultimately show ?thesis by simp
  next
    case True
    then have l: "ListDocuments E w0 = (Inr (map fst (documents v)), w1)"
      by (simp add: store_defs w1_def w0_def b_def)
    from settled have "\<forall>f \<in> set files. settled E w1 f" by (simp add: w1_def w0_def)
    from index_loop_quiet [OF this, of stats0 ex0] obtain ls where
      s: "steps quiet_call w1 (snd L)" and
      c: "chunks (snd L) = chunks w1" and d: "documents (snd L) = documents w1" and
      lg: "logged (snd L) = logged w1 @ ls" and
      r: "filter failed_line ls = [] \<longrightarrow>
            isl (fst L) \<or>
            (\<exists>stats'. fst L = Inr (stats', filter (\<lambda>k. k \<notin> File_Path ` set files) ex0))"
      unfolding L_def by (elim exE conjE)
    from keys have none: "filter (\<lambda>k. k \<notin> File_Path ` set files) ex0 = []"
      by (auto simp: ex0_def filter_empty_conv)
    from s1 s have "steps quiet_call v (snd L)" by (rule steps_trans)
    then have f1: "list_all (\<lambda>e. quiet_call (fst e)) (new_calls v (snd L))"
      by (simp add: steps_def)
    from c d have f2: "chunks (snd L) = chunks v" "documents (snd L) = documents v"
      by (simp_all add: w1_def w0_def)
    show ?thesis
    proof (cases "isl (fst L)")
      case True
      then have "IndexAll E v = (Inl (projl (fst L)), snd L)"
        using scan l
        by (simp add: IndexAll_def Let_def w0_def [symmetric] stats0_def [symmetric]
              ex0_def [symmetric] L_def [symmetric] case_prod_beta sum.case_eq_if)
      with f1 f2 show ?thesis by simp
    next
      case False
      define stats2 where "stats2 = fst (projr (fst L))"
      define ex2 where "ex2 = snd (projr (fst L))"
      from False have fl: "fst L = Inr (stats2, ex2)"
        by (cases "fst L") (simp_all add: stats2_def ex2_def)
      define ps where "ps = range_order (pick E) (length ex2) ex2"
      define R where "R = remove_loop E ps stats2 (snd L)"
      have run: "snd (IndexAll E v) = snd R"
        using scan l fl
        by (simp add: IndexAll_def Let_def w0_def [symmetric] stats0_def [symmetric]
              ex0_def [symmetric] L_def [symmetric] ps_def [symmetric] R_def [symmetric]
              case_prod_beta)
      have "remove_loop E ps stats2 (snd L) = (fst R, snd R)" by (simp add: R_def)
      from remove_loop_counts [OF this] obtain ls' where
        lr: "logged (snd R) = logged (snd L) @ ls'"
        by (elim exE conjE)
      from clean have "filter failed_line ls = []"
        by (simp add: run new_logged_def lr lg w1_def w0_def)
      with r False fl none have "ex2 = []" by simp
      then have "snd R = snd L" by (simp add: R_def ps_def)
      with f1 f2 show ?thesis unfolding run by simp
    qed
  qed
qed
lemma settled_same_store:
  "chunks w' = chunks w \<Longrightarrow> documents w' = documents w \<Longrightarrow> settled E w' f = settled E w f"
  by (simp add: settled_def)

lemma index_loop_leftover:
  "\<forall>f \<in> set files. settled E w f \<Longrightarrow>
   index_loop E files stats ex w = (Inr (stats', ex'), w') \<Longrightarrow>
   \<forall>p \<in> set ex' \<inter> File_Path ` set files.
     list_all (\<lambda>kc. Chunk_FilePath (snd kc) \<noteq> p) (chunks w)"
proof (induction files arbitrary: stats ex w)
  case Nil
  then show ?case by simp
next
  case (Cons f files)
  let ?p = "File_Path f"
  let ?k = "fails E (Suc (length (calls w))) (OpDeleteByFile ?p)"
  let ?w1 = "w\<lparr>calls := calls w @ [(OpGetDocument ?p, True)]\<rparr>"
  let ?same = "unchanged (map_of (documents w) ?p) f"
  from Cons.prems(1) have sf: "settled E w f" and rest: "\<forall>h \<in> set files. settled E w h"
    by simp_all
  have b: "\<not> fails E (length (calls w)) (OpGetDocument ?p)"
  proof
    assume "fails E (length (calls w)) (OpGetDocument ?p)"
    then have "isl (fst (index_loop E (f # files) stats ex w))" by (simp add: store_defs)
    with Cons.prems(2) show False by simp
  qed
  then have g: "GetDocument E ?p w = (Inr (map_of (documents w) ?p), ?w1)"
    by (simp add: store_defs)
  obtain sx exx wx where
    run: "index_loop E files sx exx wx = (Inr (stats', ex'), w')" and
    cx: "chunks wx = chunks w" and dx: "documents wx = documents w" and
    px: "?p \<in> set exx \<longrightarrow> list_all (\<lambda>kc. Chunk_FilePath (snd kc) \<noteq> ?p) (chunks w)"
  proof (cases ?same)
    case True
    with Cons.prems(2) g
    have "index_loop E files stats (removeAll ?p ex) ?w1 = (Inr (stats', ex'), w')" by simp
    then show ?thesis by (rule that) simp_all
  next
    case False
    with sf have empty: "ChunkWithContext E ?p (File_Content f) = []" and
      none: "list_all (\<lambda>kc. Chunk_FilePath (snd kc) \<noteq> ?p) (chunks ?w1)"
      by (simp_all add: settled_def)
    note i = IndexFile_no_chunks [OF empty none]
    show ?thesis
    proof (cases ?k)
      case True
      with Cons.prems(2) g False i
      have "index_loop E files stats ex
          (w\<lparr>calls := calls w @ [(OpGetDocument ?p, True), (OpDeleteByFile ?p, False)],
             logged := logged w @
               [FailedToIndex ?p (Wrapped ''failed to delete existing chunks'' StoreError)]\<rparr>) =
          (Inr (stats', ex'), w')"
        by simp
      then show ?thesis by (rule that) (use none in simp_all)
    next
      case k: False
      with Cons.prems(2) g False i
      have "index_loop E files
          (stats\<lparr>FilesIndexed := FilesIndexed stats + 1,
                 ChunksCreated := ChunksCreated stats + 0\<rparr>)
          (removeAll ?p ex)
          (w\<lparr>calls := calls w @ [(OpGetDocument ?p, True), (OpDeleteByFile ?p, True)]\<rparr>) =
          (Inr (stats', ex'), w')"
        by simp
      then show ?thesis by (rule that) simp_all
    qed
  qed
  from rest have "\<forall>h \<in> set files. settled E wx h"
    by (simp add: settled_same_store [OF cx dx])
  from Cons.IH [OF this run] have
    ih: "\<forall>p \<in> set ex' \<inter> File_Path ` set files.
           list_all (\<lambda>kc. Chunk_FilePath (snd kc) \<noteq> p) (chunks w)"
    by (simp add: cx)
  from index_loop_counts [OF run] have sub: "set ex' \<subseteq> set exx" by (elim exE conjE)
  show ?case
  proof
    fix q assume q: "q \<in> set ex' \<inter> File_Path ` set (f # files)"
    then consider (here) "q = ?p" | (later) "q \<in> set ex' \<inter> File_Path ` set files" by auto
    then show "list_all (\<lambda>kc. Chunk_FilePath (snd kc) \<noteq> q) (chunks w)"
    proof cases
      case here
      with q sub have "?p \<in> set exx" by auto
      with px here show ?thesis by simp
    next
      case later
      with ih show ?thesis by simp
    qed
  qed
qed

lemma remove_loop_no_chunks:
  "\<forall>p \<in> set ps. list_all (\<lambda>kc. Chunk_FilePath (snd kc) \<noteq> p) (chunks w) \<Longrightarrow>
   chunks (snd (remove_loop E ps stats w)) = chunks w"
proof (induction ps arbitrary: stats w)
  case Nil
  show ?case by simp
next
  case (Cons p ps)
  from Cons.prems have none: "list_all (\<lambda>kc. Chunk_FilePath (snd kc) \<noteq> p) (chunks w)"
    and rest: "\<forall>q \<in> set ps. list_all (\<lambda>kc. Chunk_FilePath (snd kc) \<noteq> q) (chunks w)"
    by simp_all
  define r where "r = fst (RemoveFile E p w)"
  define w1 where "w1 = snd (RemoveFile E p w)"
  have rm: "RemoveFile E p w = (r, w1)" by (simp add: r_def w1_def)
  have c1: "chunks w1 = chunks w"
    unfolding w1_def using filter_all [OF none] by (simp add: RemoveFile_cases)
  from rest have r1: "\<forall>q \<in> set ps. list_all (\<lambda>kc. Chunk_FilePath (snd kc) \<noteq> q) (chunks w1)"
    by (simp add: c1)
  show ?case
  proof (cases r)
    case (Inl err)
    from r1 have "\<forall>q \<in> set ps. list_all (\<lambda>kc. Chunk_FilePath (snd kc) \<noteq> q)
        (chunks (w1\<lparr>logged := logged w1 @ [FailedToRemove p err]\<rparr>))"
      by simp
    from Cons.IH [OF this] rm Inl show ?thesis by (simp add: c1)
  next
    case (Inr u)
    from Cons.IH [OF r1] rm Inr show ?thesis by (simp add: c1)
  qed
qed

lemma no_embed_no_save:
  "list_all (\<lambda>e. quiet_call (fst e) \<or> removal_call (fst e)) cs \<Longrightarrow>
   filter (\<lambda>e. is_embed (fst e)) cs = [] \<and> filter (\<lambda>e. is_save (fst e)) cs = []"
proof (induction cs)
  case Nil
  show ?case by simp
next
  case (Cons c cs)
  then have q: "quiet_call (fst c) \<or> removal_call (fst c)" and
    ih: "filter (\<lambda>e. is_embed (fst e)) cs = [] \<and> filter (\<lambda>e. is_save (fst e)) cs = []"
    by simp_all
  from q have "\<not> is_embed (fst c)" "\<not> is_save (fst c)" by (cases "fst c"; simp)+
  with ih show ?case by simp
qed

lemma IndexAll_rerun:
  assumes scan: "Scan E = Inr (files, skipped)"
    and settled: "\<forall>f \<in> set files. settled E v f"
    and keys: "fst ` set (documents v) \<subseteq> File_Path ` set files"
  shows "filter (\<lambda>e. is_embed (fst e)) (new_calls v (snd (IndexAll E v))) = [] \<and>
         filter (\<lambda>e. is_save (fst e)) (new_calls v (snd (IndexAll E v))) = [] \<and>
         chunks (snd (IndexAll E v)) = chunks v"
proof -
  let ?Q = "\<lambda>c. quiet_call c \<or> removal_call c"
  define w0 where "w0 = v\<lparr>logged := logged v @ map Skipped skipped\<rparr>"
  define b where "b = (\<not> fails E (length (calls v)) OpListDocuments)"
  define w1 where "w1 = w0\<lparr>calls := calls w0 @ [(OpListDocuments, b)]\<rparr>"
  define stats0 where "stats0 = \<lparr>FilesIndexed = 0, FilesSkipped = length skipped,
     ChunksCreated = 0, FilesRemoved = 0, Duration = 0\<rparr>"
  define ex0 where "ex0 = remdups (map fst (documents v))"
  define L where "L = index_loop E files stats0 ex0 w1"
  have s1: "steps ?Q v w1" by (simp add: steps_def new_calls_def w1_def w0_def)
  have main: "steps ?Q v (snd (IndexAll E v)) \<and> chunks (snd (IndexAll E v)) = chunks v"
  proof (cases b)
    case False
    then have "IndexAll E v = (Inl (Wrapped ''failed to list documents'' StoreError), w1)"
      using scan
      by (simp add: IndexAll_def Let_def store_defs w1_def w0_def b_def)
    moreover have "chunks w1 = chunks v" by (simp add: w1_def w0_def)
    ultimately show ?thesis using s1 by simp
  next
    case True
    then have l: "ListDocuments E w0 = (Inr (map fst (documents v)), w1)"
      by (simp add: store_defs w1_def w0_def b_def)
    from settled have s: "\<forall>f \<in> set files. settled E w1 f" by (simp add: w1_def w0_def)
    from index_loop_quiet [OF s, of stats0 ex0] have
      sq: "steps quiet_call w1 (snd L)" and c: "chunks (snd L) = chunks w1"
      unfolding L_def by simp_all
    from sq have "steps ?Q w1 (snd L)" by (rule steps_mono) simp
    with s1 have s2: "steps ?Q v (snd L)" by (rule steps_trans)
    from c have c2: "chunks (snd L) = chunks v" by (simp add: w1_def w0_def)
    show ?thesis
    proof (cases "isl (fst L)")
      case True
      then have "IndexAll E v = (Inl (projl (fst L)), snd L)"
        using scan l
        by (simp add: IndexAll_def Let_def w0_def [symmetric] stats0_def [symmetric]
              ex0_def [symmetric] L_def [symmetric] case_prod_beta sum.case_eq_if)
      with s2 c2 show ?thesis by simp
    next
      case False
      define stats2 where "stats2 = fst (projr (fst L))"
      define ex2 where "ex2 = snd (projr (fst L))"
      from False have fl: "fst L = Inr (stats2, ex2)"
        by (cases "fst L") (simp_all add: stats2_def ex2_def)
      then have loop: "index_loop E files stats0 ex0 w1 = (Inr (stats2, ex2), snd L)"
        unfolding L_def [symmetric] by (simp add: prod_eq_iff)
      define ps where "ps = range_order (pick E) (length ex2) ex2"
      define R where "R = remove_loop E ps stats2 (snd L)"
      have run: "snd (IndexAll E v) = snd R"
        using scan l fl
        by (simp add: IndexAll_def Let_def w0_def [symmetric] stats0_def [symmetric]
              ex0_def [symmetric] L_def [symmetric] ps_def [symmetric] R_def [symmetric]
              case_prod_beta)
      note sub = index_phase_facts(9) [OF loop]
      from index_phase_facts(10) [OF loop] have d2: "distinct ex2" by (simp add: ex0_def)
      from range_order_perm [OF d2, of "length ex2" "pick E"] have sp: "set ps = set ex2"
        by (simp add: ps_def)
      from sub keys have "set ex2 \<subseteq> File_Path ` set files" by (auto simp: ex0_def)
      with index_loop_leftover [OF s loop] sp
      have "\<forall>p \<in> set ps. list_all (\<lambda>kc. Chunk_FilePath (snd kc) \<noteq> p) (chunks (snd L))"
        by (auto simp: c w1_def w0_def)
      from remove_loop_no_chunks [OF this, of E stats2] have c3: "chunks (snd R) = chunks v"
        by (simp add: R_def c2)
      have "steps removal_call (snd L) (snd R)" unfolding R_def by (rule steps_remove_loop)
      then have "steps ?Q (snd L) (snd R)" by (rule steps_mono) simp
      with s2 have "steps ?Q v (snd R)" by (rule steps_trans)
      with c3 show ?thesis by (simp add: run)
    qed
  qed
  then have "list_all (\<lambda>e. quiet_call (fst e) \<or> removal_call (fst e))
      (new_calls v (snd (IndexAll E v)))"
    by (simp add: steps_def)
  from no_embed_no_save [OF this] main show ?thesis by simp
qed
text \<open>
  C3, as the claim states it, fails. The tree has one file, \<open>a.txt\<close>, and the store is
  empty. In the first run the embedder fails once: the file is logged as failed, the run
  returns its statistics and the store stays empty. The second run, on the same tree,
  indexes the file: it calls \<open>EmbedBatch\<close> and saves a document. A second run that meets a
  failure changes the store too, even after a first run without one: \<open>a.txt\<close> yields no
  chunk and keeps a document with an old hash; when \<open>DeleteByFile\<close> fails once in the
  second run, the file is logged as failed and its document is then deleted by the removal
  loop.
\<close>

theorem IndexAll_retry_counterexample:
  "fst (IndexAll (demo_env [demo_file ''a.txt'' ''h1'' ''x''] (fails_once 3) first_key)
     empty_world) =
     Inr \<lparr>FilesIndexed = 0, FilesSkipped = 0, ChunksCreated = 0, FilesRemoved = 0,
          Duration = 4\<rparr> \<and>
   new_logged empty_world
     (snd (IndexAll (demo_env [demo_file ''a.txt'' ''h1'' ''x''] (fails_once 3) first_key)
        empty_world)) =
     [FailedToIndex ''a.txt'' (Wrapped ''failed to embed chunks'' EmbedderError)] \<and>
   documents
     (snd (IndexAll (demo_env [demo_file ''a.txt'' ''h1'' ''x''] (fails_once 3) first_key)
        empty_world)) = [] \<and>
   map fst (new_calls
     (snd (IndexAll (demo_env [demo_file ''a.txt'' ''h1'' ''x''] (fails_once 3) first_key)
        empty_world))
     (snd (IndexAll (demo_env [demo_file ''a.txt'' ''h1'' ''x''] (fails_once 3) first_key)
        (snd (IndexAll (demo_env [demo_file ''a.txt'' ''h1'' ''x''] (fails_once 3) first_key)
           empty_world))))) =
     [OpListDocuments, OpGetDocument ''a.txt'', OpDeleteByFile ''a.txt'', OpEmbedBatch [''x''],
      OpSaveChunks [''a.txt#1''], OpSaveDocument (demo_doc ''a.txt'' ''h1'')] \<and>
   documents
     (snd (IndexAll (demo_env [demo_file ''a.txt'' ''h1'' ''x''] (fails_once 3) first_key)
        (snd (IndexAll (demo_env [demo_file ''a.txt'' ''h1'' ''x''] (fails_once 3) first_key)
           empty_world)))) =
     [(''a.txt'', demo_doc ''a.txt'' ''h1'')] \<and>
   fst (IndexAll (demo_env [demo_file ''a.txt'' ''h2'' []] (fails_once 5) first_key)
     one_file_world) =
     Inr \<lparr>FilesIndexed = 1, FilesSkipped = 0, ChunksCreated = 0, FilesRemoved = 0,
          Duration = 3\<rparr> \<and>
   new_logged one_file_world
     (snd (IndexAll (demo_env [demo_file ''a.txt'' ''h2'' []] (fails_once 5) first_key)
        one_file_world)) = [] \<and>
   documents
     (snd (IndexAll (demo_env [demo_file ''a.txt'' ''h2'' []] (fails_once 5) first_key)
        one_file_world)) =
     [(''a.txt'', demo_doc ''a.txt'' ''h1'')] \<and>
   new_logged
     (snd (IndexAll (demo_env [demo_file ''a.txt'' ''h2'' []] (fails_once 5) first_key)
        one_file_world))
     (snd (IndexAll (demo_env [demo_file ''a.txt'' ''h2'' []] (fails_once 5) first_key)
        (snd (IndexAll (demo_env [demo_file ''a.txt'' ''h2'' []] (fails_once 5) first_key)
           one_file_world)))) =
     [FailedToIndex ''a.txt'' (Wrapped ''failed to delete existing chunks'' StoreError)] \<and>
   documents
     (snd (IndexAll (demo_env [demo_file ''a.txt'' ''h2'' []] (fails_once 5) first_key)
        (snd (IndexAll (demo_env [demo_file ''a.txt'' ''h2'' []] (fails_once 5) first_key)
           one_file_world)))) = []"
proof -
  let ?A = "demo_env [demo_file ''a.txt'' ''h1'' ''x''] (fails_once 3) first_key"
  let ?B = "demo_env [demo_file ''a.txt'' ''h2'' []] (fails_once 5) first_key"
  have a: "IndexAll ?A empty_world =
     (Inr \<lparr>FilesIndexed = 0, FilesSkipped = 0, ChunksCreated = 0, FilesRemoved = 0,
           Duration = 4\<rparr>,
      \<lparr>chunks = [], documents = [], disk = ([], []),
       calls = [(OpListDocuments, True), (OpGetDocument ''a.txt'', True),
                (OpDeleteByFile ''a.txt'', True), (OpEmbedBatch [''x''], False)],
       logged = [FailedToIndex ''a.txt'' (Wrapped ''failed to embed chunks'' EmbedderError)]\<rparr>)"
    by (simp add: IndexAll_def IndexFile_def RemoveFile_def store_defs demo_defs fails_once_def
          Let_def)
  have b: "IndexAll ?B one_file_world =
     (Inr \<lparr>FilesIndexed = 1, FilesSkipped = 0, ChunksCreated = 0, FilesRemoved = 0,
           Duration = 3\<rparr>,
      \<lparr>chunks = [], documents = [(''a.txt'', demo_doc ''a.txt'' ''h1'')],
       disk = ([(''a.txt#1'', demo_chunk ''a.txt'' ''x'' 0)], [(''a.txt'', demo_doc ''a.txt'' ''h1'')]),
       calls = [(OpListDocuments, True), (OpGetDocument ''a.txt'', True),
                (OpDeleteByFile ''a.txt'', True)],
       logged = []\<rparr>)"
    by (simp add: IndexAll_def IndexFile_def RemoveFile_def store_defs demo_defs fails_once_def
          Let_def)
  show ?thesis
    unfolding a b fst_conv snd_conv
    by (simp add: IndexAll_def IndexFile_def RemoveFile_def store_defs demo_defs fails_once_def
          Let_def)
qed

text \<open>
  C3, amended. A file whose stored document has the hash of the scanned file is skipped:
  \<open>NeedsReindex\<close> answers no, and the loop goes on to the next file after the one
  \<open>GetDocument\<close> call, with no \<open>EmbedBatch\<close>, \<open>SaveChunks\<close> or \<open>SaveDocument\<close> and with
  the counters as they were. Hence a run over a tree that the store already reflects
  (every scanned file has a document with its hash, every document is of a scanned file)
  makes only \<open>ListDocuments\<close> and \<open>GetDocument\<close> calls, counts no file as indexed or
  removed and leaves the chunks and the documents as they were, whichever calls fail. And
  when \<open>IndexAll\<close> runs twice in a row on the same scan (which lists each path once, the
  chunker labelling its chunks with the path of the file), the first run returning its
  statistics and logging no file as failed, the second run makes no embedding call, saves
  no chunk and no document, and leaves the chunks what they were after the first; when
  the second run logs no file as failed either, it makes no call but \<open>ListDocuments\<close>,
  \<open>GetDocument\<close> and \<open>DeleteByFile\<close> and leaves the documents what they were too.
\<close>

theorem IndexAll_idempotent:
  "(map_of (documents w) (File_Path file) = Some doc \<and> Doc_Hash doc = File_Hash file \<and>
    \<not> fails E (length (calls w)) (OpGetDocument (File_Path file)) \<longrightarrow>
      fst (NeedsReindex E (File_Path file) (File_Hash file) w) = Inr False \<and>
      index_loop E (file # rest) stats ex w =
        index_loop E rest stats (removeAll (File_Path file) ex)
          (w\<lparr>calls := calls w @ [(OpGetDocument (File_Path file), True)]\<rparr>)) \<and>
   (Scan E = Inr (files, skipped) \<and>
    (\<forall>f \<in> set files. unchanged (map_of (documents w) (File_Path f)) f) \<and>
    fst ` set (documents w) \<subseteq> File_Path ` set files \<longrightarrow>
      chunks (snd (IndexAll E w)) = chunks w \<and>
      documents (snd (IndexAll E w)) = documents w \<and>
      list_all (\<lambda>e. read_call (fst e)) (new_calls w (snd (IndexAll E w))) \<and>
      (isl (fst (IndexAll E w)) \<or>
       (FilesIndexed (projr (fst (IndexAll E w))) = 0 \<and>
        ChunksCreated (projr (fst (IndexAll E w))) = 0 \<and>
        FilesRemoved (projr (fst (IndexAll E w))) = 0))) \<and>
   (Scan E = Inr (files, skipped) \<and> distinct (map File_Path files) \<and>
    (\<forall>p c. list_all (\<lambda>i. Info_FilePath i = p) (ChunkWithContext E p c)) \<and>
    IndexAll E v = (Inr stats1, w1) \<and>
    filter failed_line (new_logged v w1) = [] \<longrightarrow>
      filter (\<lambda>e. is_embed (fst e)) (new_calls w1 (snd (IndexAll E w1))) = [] \<and>
      filter (\<lambda>e. is_save (fst e)) (new_calls w1 (snd (IndexAll E w1))) = [] \<and>
      chunks (snd (IndexAll E w1)) = chunks w1 \<and>
      (filter failed_line (new_logged w1 (snd (IndexAll E w1))) = [] \<longrightarrow>
         documents (snd (IndexAll E w1)) = documents w1 \<and>
         list_all (\<lambda>e. quiet_call (fst e)) (new_calls w1 (snd (IndexAll E w1)))))"
proof (intro conjI; rule impI; elim conjE)
  assume "map_of (documents w) (File_Path file) = Some doc" "Doc_Hash doc = File_Hash file"
    "\<not> fails E (length (calls w)) (OpGetDocument (File_Path file))"
  then show "fst (NeedsReindex E (File_Path file) (File_Hash file) w) = Inr False \<and>
      index_loop E (file # rest) stats ex w =
        index_loop E rest stats (removeAll (File_Path file) ex)
          (w\<lparr>calls := calls w @ [(OpGetDocument (File_Path file), True)]\<rparr>)"
    by (simp add: NeedsReindex_def store_defs unchanged_def)
next
  assume "Scan E = Inr (files, skipped)"
    "\<forall>f \<in> set files. unchanged (map_of (documents w) (File_Path f)) f"
    "fst ` set (documents w) \<subseteq> File_Path ` set files"
  from IndexAll_unchanged [OF this]
  show "chunks (snd (IndexAll E w)) = chunks w \<and>
      documents (snd (IndexAll E w)) = documents w \<and>
      list_all (\<lambda>e. read_call (fst e)) (new_calls w (snd (IndexAll E w))) \<and>
      (isl (fst (IndexAll E w)) \<or>
       (FilesIndexed (projr (fst (IndexAll E w))) = 0 \<and>
        ChunksCreated (projr (fst (IndexAll E w))) = 0 \<and>
        FilesRemoved (projr (fst (IndexAll E w))) = 0))"
    by (intro conjI) (elim conjE, assumption)+
next
  assume scan: "Scan E = Inr (files, skipped)" and dist: "distinct (map File_Path files)"
    and faithful: "\<forall>p c. list_all (\<lambda>i. Info_FilePath i = p) (ChunkWithContext E p c)"
    and run: "IndexAll E v = (Inr stats1, w1)"
    and clean1: "filter failed_line (new_logged v w1) = []"
  from first_run_settles [OF scan faithful dist run clean1] have
    s: "\<forall>f \<in> set files. settled E w1 f" and
    k: "fst ` set (documents w1) \<subseteq> File_Path ` set files"
    by (rule conjunct1, rule conjunct2)
  note again = IndexAll_rerun [OF scan s k]
  have "documents (snd (IndexAll E w1)) = documents w1 \<and>
      list_all (\<lambda>e. quiet_call (fst e)) (new_calls w1 (snd (IndexAll E w1)))"
    if clean2: "filter failed_line (new_logged w1 (snd (IndexAll E w1))) = []"
    using IndexAll_quiet [OF scan s k clean2] by (rule conjunct2)
  with again show
    "filter (\<lambda>e. is_embed (fst e)) (new_calls w1 (snd (IndexAll E w1))) = [] \<and>
     filter (\<lambda>e. is_save (fst e)) (new_calls w1 (snd (IndexAll E w1))) = [] \<and>
     chunks (snd (IndexAll E w1)) = chunks w1 \<and>
     (filter failed_line (new_logged w1 (snd (IndexAll E w1))) = [] \<longrightarrow>
        documents (snd (IndexAll E w1)) = documents w1 \<and>
        list_all (\<lambda>e. quiet_call (fst e)) (new_calls w1 (snd (IndexAll E w1))))"
    by simp
qed

theorem IndexAll_idempotent_witness:
  "map_of (documents one_file_world) (File_Path (demo_file ''a.txt'' ''h1'' ''x'')) =
     Some (demo_doc ''a.txt'' ''h1'') \<and>
   Doc_Hash (demo_doc ''a.txt'' ''h1'') = File_Hash (demo_file ''a.txt'' ''h1'' ''x'') \<and>
   \<not> fails (demo_env [demo_file ''a.txt'' ''h1'' ''x''] never first_key)
       (length (calls one_file_world)) (OpGetDocument (File_Path (demo_file ''a.txt'' ''h1'' ''x''))) \<and>
   Scan (demo_env [demo_file ''a.txt'' ''h1'' ''x''] never first_key) =
     Inr ([demo_file ''a.txt'' ''h1'' ''x''], []) \<and>
   unchanged (map_of (documents one_file_world) (File_Path (demo_file ''a.txt'' ''h1'' ''x'')))
     (demo_file ''a.txt'' ''h1'' ''x'') \<and>
   fst ` set (documents one_file_world) \<subseteq> File_Path ` set [demo_file ''a.txt'' ''h1'' ''x''] \<and>
   fst (NeedsReindex (demo_env [demo_file ''a.txt'' ''h1'' ''x''] never first_key)
          (File_Path (demo_file ''a.txt'' ''h1'' ''x'')) (File_Hash (demo_file ''a.txt'' ''h1'' ''x''))
          one_file_world) = Inr False \<and>
   chunks (snd (IndexAll (demo_env [demo_file ''a.txt'' ''h1'' ''x''] never first_key)
          one_file_world)) = chunks one_file_world \<and>
   Scan (demo_env [demo_file ''a.txt'' ''h2'' ''y'', demo_file ''e.txt'' ''h5'' []] never first_key) =
     Inr ([demo_file ''a.txt'' ''h2'' ''y'', demo_file ''e.txt'' ''h5'' []], []) \<and>
   distinct (map File_Path [demo_file ''a.txt'' ''h2'' ''y'', demo_file ''e.txt'' ''h5'' []]) \<and>
   (\<forall>p c. list_all (\<lambda>i. Info_FilePath i = p)
      (ChunkWithContext (demo_env [demo_file ''a.txt'' ''h2'' ''y'', demo_file ''e.txt'' ''h5'' []]
              never first_key) p c)) \<and>
   fst (IndexAll (demo_env [demo_file ''a.txt'' ''h2'' ''y'', demo_file ''e.txt'' ''h5'' []]
              never first_key) one_file_world) =
     Inr \<lparr>FilesIndexed = 2, FilesSkipped = 0, ChunksCreated = 1, FilesRemoved = 0,
          Duration = 8\<rparr> \<and>
   filter failed_line (new_logged one_file_world
      (snd (IndexAll (demo_env [demo_file ''a.txt'' ''h2'' ''y'', demo_file ''e.txt'' ''h5'' []]
              never first_key) one_file_world))) = [] \<and>
   filter failed_line (new_logged
      (snd (IndexAll (demo_env [demo_file ''a.txt'' ''h2'' ''y'', demo_file ''e.txt'' ''h5'' []]
              never first_key) one_file_world))
      (snd (IndexAll (demo_env [demo_file ''a.txt'' ''h2'' ''y'', demo_file ''e.txt'' ''h5'' []]
              never first_key)
         (snd (IndexAll (demo_env [demo_file ''a.txt'' ''h2'' ''y'', demo_file ''e.txt'' ''h5'' []]
              never first_key) one_file_world))))) = [] \<and>
   map fst (new_calls one_file_world
      (snd (IndexAll (demo_env [demo_file ''a.txt'' ''h2'' ''y'', demo_file ''e.txt'' ''h5'' []]
              never first_key) one_file_world))) =
     [OpListDocuments, OpGetDocument ''a.txt'', OpDeleteByFile ''a.txt'', OpEmbedBatch [''y''],
      OpSaveChunks [''a.txt#1''], OpSaveDocument (demo_doc ''a.txt'' ''h2''),
      OpGetDocument ''e.txt'', OpDeleteByFile ''e.txt''] \<and>
   filter (\<lambda>e. is_embed (fst e))
     (new_calls
        (snd (IndexAll (demo_env [demo_file ''a.txt'' ''h2'' ''y'', demo_file ''e.txt'' ''h5'' []]
           never first_key) one_file_world))
        (snd (IndexAll (demo_env [demo_file ''a.txt'' ''h2'' ''y'', demo_file ''e.txt'' ''h5'' []]
           never first_key)
          (snd (IndexAll (demo_env [demo_file ''a.txt'' ''h2'' ''y'', demo_file ''e.txt'' ''h5'' []]
             never first_key) one_file_world))))) = [] \<and>
   chunks (snd (IndexAll (demo_env [demo_file ''a.txt'' ''h2'' ''y'', demo_file ''e.txt'' ''h5'' []]
        never first_key)
      (snd (IndexAll (demo_env [demo_file ''a.txt'' ''h2'' ''y'', demo_file ''e.txt'' ''h5'' []]
        never first_key) one_file_world)))) =
   chunks (snd (IndexAll (demo_env [demo_file ''a.txt'' ''h2'' ''y'', demo_file ''e.txt'' ''h5'' []]
        never first_key) one_file_world)) \<and>
   documents (snd (IndexAll (demo_env [demo_file ''a.txt'' ''h2'' ''y'', demo_file ''e.txt'' ''h5'' []]
        never first_key)
      (snd (IndexAll (demo_env [demo_file ''a.txt'' ''h2'' ''y'', demo_file ''e.txt'' ''h5'' []]
        never first_key) one_file_world)))) =
   documents (snd (IndexAll (demo_env [demo_file ''a.txt'' ''h2'' ''y'', demo_file ''e.txt'' ''h5'' []]
        never first_key) one_file_world)) \<and>
   list_all (\<lambda>e. quiet_call (fst e))
     (new_calls
        (snd (IndexAll (demo_env [demo_file ''a.txt'' ''h2'' ''y'', demo_file ''e.txt'' ''h5'' []]
           never first_key) one_file_world))
        (snd (IndexAll (demo_env [demo_file ''a.txt'' ''h2'' ''y'', demo_file ''e.txt'' ''h5'' []]
           never first_key)
          (snd (IndexAll (demo_env [demo_file ''a.txt'' ''h2'' ''y'', demo_file ''e.txt'' ''h5'' []]
             never first_key) one_file_world)))))"
proof -
  let ?a = "demo_file ''a.txt'' ''h1'' ''x''"
  let ?E1 = "demo_env [?a] never first_key"
  let ?fs = "[demo_file ''a.txt'' ''h2'' ''y'', demo_file ''e.txt'' ''h5'' []]"
  let ?E2 = "demo_env ?fs never first_key"
  let ?st = "\<lparr>FilesIndexed = 2, FilesSkipped = 0, ChunksCreated = 1, FilesRemoved = 0,
          Duration = 8\<rparr>"
  let ?w1 = "snd (IndexAll ?E2 one_file_world)"
  have a1: "map_of (documents one_file_world) (File_Path ?a) = Some (demo_doc ''a.txt'' ''h1'')"
    by (simp add: demo_defs)
  have a2: "Doc_Hash (demo_doc ''a.txt'' ''h1'') = File_Hash ?a" by (simp add: demo_defs)
  have a3: "\<not> fails ?E1 (length (calls one_file_world)) (OpGetDocument (File_Path ?a))"
    by (simp add: demo_defs)
  have b1: "Scan ?E1 = Inr ([?a], [])" by (simp add: demo_env_def)
  have b2: "\<forall>f \<in> set [?a]. unchanged (map_of (documents one_file_world) (File_Path f)) f"
    by (simp add: demo_defs)
  have b3: "fst ` set (documents one_file_world) \<subseteq> File_Path ` set [?a]"
    by (simp add: demo_defs)
  have b4: "unchanged (map_of (documents one_file_world) (File_Path ?a)) ?a"
    by (simp add: demo_defs)
  have c1: "Scan ?E2 = Inr (?fs, [])" by (simp add: demo_env_def)
  have c2: "distinct (map File_Path ?fs)" by (simp add: demo_defs)
  have c4: "\<forall>p c. list_all (\<lambda>i. Info_FilePath i = p) (ChunkWithContext ?E2 p c)"
    by (simp add: demo_env_def demo_chunker_def)
  have w1: "?w1 =
     \<lparr>chunks = [(''a.txt#1'', demo_chunk ''a.txt'' ''y'' 4)],
      documents = [(''a.txt'', demo_doc ''a.txt'' ''h2'')],
      disk = ([(''a.txt#1'', demo_chunk ''a.txt'' ''x'' 0)], [(''a.txt'', demo_doc ''a.txt'' ''h1'')]),
      calls = [(OpListDocuments, True), (OpGetDocument ''a.txt'', True),
               (OpDeleteByFile ''a.txt'', True), (OpEmbedBatch [''y''], True),
               (OpSaveChunks [''a.txt#1''], True),
               (OpSaveDocument (demo_doc ''a.txt'' ''h2''), True),
               (OpGetDocument ''e.txt'', True), (OpDeleteByFile ''e.txt'', True)],
      logged = []\<rparr>"
    by (simp add: IndexAll_def IndexFile_def RemoveFile_def store_defs demo_defs Let_def)
  have c5: "fst (IndexAll ?E2 one_file_world) = Inr ?st"
    by (simp add: IndexAll_def IndexFile_def RemoveFile_def store_defs demo_defs Let_def)
  then have c5': "IndexAll ?E2 one_file_world = (Inr ?st, ?w1)"
    by (simp only: prod_eq_iff fst_conv snd_conv simp_thms)
  have c6: "filter failed_line (new_logged one_file_world ?w1) = []"
    unfolding w1 by (simp add: demo_defs)
  have c7: "filter failed_line (new_logged ?w1 (snd (IndexAll ?E2 ?w1))) = []"
    unfolding w1
    by (simp add: IndexAll_def IndexFile_def RemoveFile_def store_defs demo_defs Let_def)
  have run: "map fst (new_calls one_file_world ?w1) =
     [OpListDocuments, OpGetDocument ''a.txt'', OpDeleteByFile ''a.txt'', OpEmbedBatch [''y''],
      OpSaveChunks [''a.txt#1''], OpSaveDocument (demo_doc ''a.txt'' ''h2''),
      OpGetDocument ''e.txt'', OpDeleteByFile ''e.txt'']"
    unfolding w1 by (simp add: demo_defs)
  note first = IndexAll_idempotent
    [of one_file_world ?a "demo_doc ''a.txt'' ''h1''" ?E1 "[]" _ _ "[?a]" "[]",
     THEN conjunct1, THEN mp, OF conjI [OF a1 conjI [OF a2 a3]], THEN conjunct1]
  note second = IndexAll_idempotent
    [of one_file_world ?a "demo_doc ''a.txt'' ''h1''" ?E1 "[]" _ _ "[?a]" "[]",
     THEN conjunct2, THEN conjunct1, THEN mp, OF conjI [OF b1 conjI [OF b2 b3]],
     THEN conjunct1]
  note third = IndexAll_idempotent
    [of _ _ _ ?E2 _ _ _ ?fs "[]" one_file_world ?st ?w1,
     THEN conjunct2, THEN conjunct2, THEN mp,
     OF conjI [OF c1 conjI [OF c2 conjI [OF c4 conjI [OF c5' c6]]]]]
  note t1 = third [THEN conjunct1]
   and t3 = third [THEN conjunct2, THEN conjunct2, THEN conjunct1]
   and fourth = third [THEN conjunct2, THEN conjunct2, THEN conjunct2, THEN mp, OF c7]
  note t4 = fourth [THEN conjunct1] and t5 = fourth [THEN conjunct2]
  show ?thesis
    by (intro conjI a1 a2 a3 b1 b4 b3 first second c1 c2 c4 c5 c6 c7 run t1 t3 t4 t5)
qed

end
